theory Spec2Isabelle
  imports Complex_Main "HOL-Library.Word"
begin

section \<open>JavaScript values used by the throttle\<close>

type_synonym byte = "8 word"

text \<open>
  A \<open>number\<close> handed to \<open>process\<close>: the default argument \<open>Infinity\<close>, or a finite value.
  The group computes the finite value as a product with a quotient of times, and the plain
  throttle adds it to its counters as it is, so finite numbers are rationals here: the
  arithmetic is exact, the rounding of a double is left out.
\<close>

datatype number = Infinity | Finite rat

datatype js_error = TypeError | RangeError

text \<open>How a call of an \<open>async\<close> method settles: its promise is fulfilled or rejected.\<close>

datatype 'a completion = Returned 'a | Threw js_error

text \<open>\<open>ToIntegerOrInfinity\<close> on a finite number: the fraction is cut off, towards zero.\<close>

definition ToIntegerOrInfinity :: "rat \<Rightarrow> int" where
  "ToIntegerOrInfinity x = (if x < 0 then \<lceil>x\<rceil> else \<lfloor>x\<rfloor>)"

text \<open>\<open>new Uint8Array(n)\<close>: zero-filled, a \<open>RangeError\<close> for a negative length.\<close>

definition new_Uint8Array :: "int \<Rightarrow> byte list option" where
  "new_Uint8Array n = (if n < 0 then None else Some (replicate (nat n) 0))"

text \<open>
  \<open>TypedArray.prototype.subarray\<close> on two numbers: each is made an integer, then clamped; a
  negative index counts from the end.
\<close>

definition relativeIndex :: "nat \<Rightarrow> int \<Rightarrow> nat" where
  "relativeIndex len i = (if i < 0 then nat (max (int len + i) 0) else nat (min i (int len)))"

definition subarray :: "byte list \<Rightarrow> rat \<Rightarrow> rat \<Rightarrow> byte list" where
  "subarray a from to =
     (let b = relativeIndex (length a) (ToIntegerOrInfinity from);
          e = relativeIndex (length a) (ToIntegerOrInfinity to)
      in take (e - b) (drop b a))"

text \<open>
  \<open>target.set(source, offset)\<close>: the offset is made an integer; a \<open>RangeError\<close> (here \<open>None\<close>)
  when it is negative or the source does not fit.
\<close>

definition set_bytes :: "byte list \<Rightarrow> byte list \<Rightarrow> rat \<Rightarrow> byte list option" where
  "set_bytes target source offset =
     (let targetOffset = ToIntegerOrInfinity offset in
      if targetOffset < 0 \<or> int (length target) < targetOffset + int (length source) then None
      else Some (take (nat targetOffset) target @ source
                 @ drop (nat targetOffset + length source) target))"

text \<open>\<open>Array.prototype.indexOf\<close>: the first position of the element, \<open>-1\<close> when it is absent.\<close>

fun indexOf :: "nat list \<Rightarrow> nat \<Rightarrow> int" where
  "indexOf [] x = -1"
| "indexOf (y # ys) x = (if y = x then 0 else (let i = indexOf ys x in if i < 0 then -1 else i + 1))"

text \<open>
  \<open>array.splice(start, 1)\<close>: removes one element at \<open>start\<close>; a negative \<open>start\<close> counts from
  the end, so \<open>splice(-1, 1)\<close> removes the last element.
\<close>

definition splice1 :: "nat list \<Rightarrow> int \<Rightarrow> nat list" where
  "splice1 xs start =
     (let n = int (length xs);
          k = (if start < 0 then max (n + start) 0 else min start n)
      in take (nat k) xs @ drop (nat k + 1) xs)"

definition ClampNum :: "rat \<Rightarrow> rat \<Rightarrow> rat \<Rightarrow> rat" where
  "ClampNum number lo hi = max lo (min number hi)"

text \<open>\<open>Math.ceil(a / b)\<close> for a positive divisor.\<close>

definition ceil_quotient :: "rat \<Rightarrow> int \<Rightarrow> int" where
  "ceil_quotient a b = \<lceil>a / of_int b\<rceil>"

section \<open>Configuration and the partitioner\<close>

text \<open>
  Modelled from the spec: \<open>Config.ts\<close> is not among the sources. The fields are those the
  specification lists for the shared configuration; \<open>tickDurationMs\<close> is derived as
  \<open>1000 / ticksPerSecond\<close>.
\<close>

record Config =
  bytesPerSecond :: int
  ticksPerSecond :: int
  maxBufferSize :: int
  isThrottled :: bool

definition tickDurationMs :: "Config \<Rightarrow> rat" where
  "tickDurationMs c = 1000 / of_int (ticksPerSecond c)"

text \<open>
  Modelled from the spec: \<open>Util/getPartitionedIntegerPartAtIndex.ts\<close> is not among the
  sources. The specification: each part is \<open>\<lfloor>total/parts\<rfloor>\<close> or \<open>\<lfloor>total/parts\<rfloor> + 1\<close>, and the
  first \<open>total mod parts\<close> indices get the larger value.
\<close>

definition getPartitionedIntegerPartAtIndex :: "int \<Rightarrow> int \<Rightarrow> int \<Rightarrow> int" where
  "getPartitionedIntegerPartAtIndex totalValue totalParts partIndex =
     totalValue div totalParts + (if partIndex < totalValue mod totalParts then 1 else 0)"

section \<open>The state of a group and its throttles\<close>

text \<open>The class of a throttle object: \<open>BandwidthThrottle\<close> or \<open>BandwidthThrottleWithBackpressure\<close>.\<close>

datatype kind = Plain | WithBackpressure

text \<open>
  The fields of a throttle. \<open>done_resolved\<close> tells whether the deferred \<open>done\<close> has been
  resolved; \<open>enqueued\<close> lists the chunks handed to \<open>controller.enqueue\<close>, oldest first, and
  \<open>terminated\<close> tells whether \<open>controller.terminate()\<close> was called (the controller is taken as
  bound); the two counters are numbers, which the plain class can leave with a fraction; \<open>resolver_backpressure\<close> tells whether a resolver is stored and \<open>resolved_writes\<close>
  counts the calls of a stored resolver; the two \<open>locked\<close> flags are those of the host's
  \<open>readable\<close> and \<open>writable\<close> ends.
\<close>

record BandwidthThrottle =
  kind :: kind
  pendingBytesBuffer :: "byte list option"
  pendingBytesCount :: rat
  pendingBytesReadIndex :: rat
  pendingBytesBufferExpandedFactor :: int
  pendingBytesBufferExpandedSize :: int
  isDataBeingWritten :: bool
  done_resolved :: bool
  resolver_backpressure :: bool
  resolved_writes :: nat
  enqueued :: "byte list list"
  terminated :: bool
  readable_locked :: bool
  writable_locked :: bool

datatype Timeout = Timeout

text \<open>
  The group together with the throttle objects it refers to: \<open>heap\<close> maps a reference to
  the object, \<open>allocated\<close> is the next unused reference. \<open>totalBytesProcessed\<close> and the
  throughput poll are left out: no statement below reads them.
\<close>

record BandwidthThrottleGroup =
  config :: Config
  inFlightRequests :: "nat list"
  bandwidthThrottles :: "nat list"
  clockIntervalId :: "Timeout option"
  lastTickTime :: int
  tickIndex :: int
  secondIndex :: int
  heap :: "nat \<Rightarrow> BandwidthThrottle"
  allocated :: nat

definition modify :: "nat \<Rightarrow> (BandwidthThrottle \<Rightarrow> BandwidthThrottle) \<Rightarrow>
    BandwidthThrottleGroup \<Rightarrow> BandwidthThrottleGroup" where
  "modify b f s = s\<lparr>heap := (heap s)(b := f (heap s b))\<rparr>"

definition hasTicked :: "BandwidthThrottleGroup \<Rightarrow> bool" where
  "hasTicked s = (lastTickTime s > -1)"

definition isTicking :: "BandwidthThrottleGroup \<Rightarrow> bool" where
  "isTicking s = (clockIntervalId s \<noteq> None)"

section \<open>The group's callbacks\<close>

definition startClock :: "BandwidthThrottleGroup \<Rightarrow> Timeout" where
  "startClock s = Timeout"

definition stopClock :: "BandwidthThrottleGroup \<Rightarrow> BandwidthThrottleGroup" where
  "stopClock s = s\<lparr>clockIntervalId := None, tickIndex := 0, secondIndex := 0, lastTickTime := -1\<rparr>"

definition handleRequestStart :: "nat \<Rightarrow> BandwidthThrottleGroup \<Rightarrow> BandwidthThrottleGroup" where
  "handleRequestStart b s =
     (let s1 = s\<lparr>inFlightRequests := inFlightRequests s @ [b]\<rparr>
      in if clockIntervalId s1 \<noteq> None then s1
         else s1\<lparr>clockIntervalId := Some (startClock s1)\<rparr>)"

definition handleRequestStop :: "nat \<Rightarrow> BandwidthThrottleGroup \<Rightarrow> BandwidthThrottleGroup" where
  "handleRequestStop b s =
     (let s1 = modify b (\<lambda>t. t\<lparr>pendingBytesBuffer := None\<rparr>) s;
          s2 = s1\<lparr>inFlightRequests := splice1 (inFlightRequests s1) (indexOf (inFlightRequests s1) b)\<rparr>
      in if length (inFlightRequests s2) = 0 then stopClock s2 else s2)"

definition handleRequestDestroy :: "nat \<Rightarrow> BandwidthThrottleGroup \<Rightarrow> BandwidthThrottleGroup" where
  "handleRequestDestroy b s =
     (let s1 = modify b (\<lambda>t. t\<lparr>pendingBytesBuffer := None\<rparr>) s
      in s1\<lparr>bandwidthThrottles := splice1 (bandwidthThrottles s1) (indexOf (bandwidthThrottles s1) b)\<rparr>)"

section \<open>The throttle's methods\<close>

text \<open>
  \<open>push(chunk, backpressure_resolver)\<close>: enqueue the chunk, then call the resolver if there is
  one. \<open>controller.enqueue\<close> throws a \<open>TypeError\<close> once the controller has been terminated.
\<close>

definition push :: "nat \<Rightarrow> byte list \<Rightarrow> bool \<Rightarrow> BandwidthThrottleGroup \<Rightarrow>
    js_error option \<times> BandwidthThrottleGroup" where
  "push b chunk backpressure_resolver s =
     (if terminated (heap s b) then (Some TypeError, s)
      else (None,
            modify b (\<lambda>t. t\<lparr>enqueued := enqueued t @ [chunk],
                            resolved_writes := (if backpressure_resolver then Suc (resolved_writes t)
                                                else resolved_writes t)\<rparr>) s))"

definition destroy :: "nat \<Rightarrow> BandwidthThrottleGroup \<Rightarrow> BandwidthThrottleGroup" where
  "destroy b s = modify b (\<lambda>t. t\<lparr>terminated := True\<rparr>) (handleRequestDestroy b s)"

definition abort :: "nat \<Rightarrow> BandwidthThrottleGroup \<Rightarrow> BandwidthThrottleGroup" where
  "abort b s = destroy b (handleRequestStop b s)"

definition gracefulAbort :: "nat \<Rightarrow> BandwidthThrottleGroup \<Rightarrow> BandwidthThrottleGroup" where
  "gracefulAbort b s =
     destroy b (handleRequestStop b (modify b (\<lambda>t. t\<lparr>done_resolved := True\<rparr>) s))"

text \<open>
  \<open>trim_buffer\<close>, by the class of the receiver. The plain class takes the new count from
  \<open>ClampNum\<close> and fails with a \<open>TypeError\<close> on a released buffer; the backpressure class takes
  the length of the transferred view and treats a released buffer as empty. The first
  component is the error that rejects the returned promise, if any.
\<close>

definition trim_buffer :: "nat \<Rightarrow> BandwidthThrottleGroup \<Rightarrow> js_error option \<times> BandwidthThrottleGroup" where
  "trim_buffer b s =
     (let t = heap s b in
      case kind t of
        Plain \<Rightarrow>
          (let transferBufferLength =
                 ClampNum (pendingBytesCount t - pendingBytesReadIndex t) 0
                   (of_int (maxBufferSize (config s)))
           in case pendingBytesBuffer t of
                None \<Rightarrow> (Some TypeError, s)
              | Some buf \<Rightarrow>
                  (let transferredBuffer = subarray buf (pendingBytesReadIndex t) (pendingBytesCount t)
                   in case new_Uint8Array (pendingBytesBufferExpandedSize t) of
                        None \<Rightarrow> (Some RangeError, modify b (\<lambda>t. t\<lparr>pendingBytesBuffer := None\<rparr>) s)
                      | Some fresh \<Rightarrow>
                          (case set_bytes fresh transferredBuffer 0 of
                             None \<Rightarrow> (Some RangeError, modify b (\<lambda>t. t\<lparr>pendingBytesBuffer := Some fresh\<rparr>) s)
                           | Some filled \<Rightarrow>
                               (None, modify b (\<lambda>t. t\<lparr>pendingBytesBuffer := Some filled,
                                                      pendingBytesReadIndex := 0,
                                                      pendingBytesCount := transferBufferLength\<rparr>) s))))
      | WithBackpressure \<Rightarrow>
          (let transferredBuffer =
                 (case pendingBytesBuffer t of
                    None \<Rightarrow> []
                  | Some buf \<Rightarrow> subarray buf (pendingBytesReadIndex t) (pendingBytesCount t))
           in case new_Uint8Array (pendingBytesBufferExpandedSize t) of
                None \<Rightarrow> (Some RangeError, s)
              | Some fresh \<Rightarrow>
                  (case set_bytes fresh transferredBuffer 0 of
                     None \<Rightarrow> (Some RangeError, modify b (\<lambda>t. t\<lparr>pendingBytesBuffer := Some fresh\<rparr>) s)
                   | Some filled \<Rightarrow>
                       (None, modify b (\<lambda>t. t\<lparr>pendingBytesBuffer := Some filled,
                                              pendingBytesReadIndex := 0,
                                              pendingBytesCount := of_nat (length transferredBuffer)\<rparr>) s))))"

text \<open>
  The bound \<open>process\<close> adds to the read index: \<open>None\<close> for \<open>Infinity\<close>. The backpressure class
  applies \<open>Math.round\<close>, which rounds a half upwards; the plain class adds the number as it is.
\<close>

fun readLimit :: "kind \<Rightarrow> number \<Rightarrow> rat option" where
  "readLimit k Infinity = None"
| "readLimit WithBackpressure (Finite m) = Some (of_int \<lfloor>m + 1 / 2\<rfloor>)"
| "readLimit Plain (Finite m) = Some m"

text \<open>
  The end of \<open>process\<close>, from the test that decides completion: nothing more happens while
  bytes remain, the producer is still writing, or the group is unthrottled; otherwise \<open>done\<close>
  is resolved, the group is told the request stopped, and the throttle is destroyed.
\<close>

definition process_end :: "rat \<Rightarrow> nat \<Rightarrow> BandwidthThrottleGroup \<Rightarrow> rat completion \<times> BandwidthThrottleGroup" where
  "process_end bytesToPushLength b s =
     (let t = heap s b in
      if pendingBytesReadIndex t < pendingBytesCount t \<or> isDataBeingWritten t
         \<or> \<not> isThrottled (config s)
      then (Returned bytesToPushLength, s)
      else (Returned bytesToPushLength,
            destroy b (handleRequestStop b (modify b (\<lambda>t. t\<lparr>done_resolved := True\<rparr>) s))))"

text \<open>
  \<open>process\<close> is \<open>async\<close>: it runs up to \<open>await this.trim_buffer()\<close> within the caller's turn and
  the rest runs as a microtask. \<open>Awaiting\<close> is the suspended call, holding \<open>bytesToPush\<close> and
  \<open>bytesToPushLength\<close>; \<open>Settled\<close> is a call that met no \<open>await\<close>. An exception inside the call
  rejects the promise it returned and is not thrown to the caller.
\<close>

datatype process_state = Awaiting "byte list" rat | Settled "rat completion"

text \<open>
  The plain class enqueues the bytes before it compacts the buffer; the backpressure class
  compacts first and enqueues after the \<open>await\<close>.
\<close>

definition push_if_plain :: "nat \<Rightarrow> byte list \<Rightarrow> BandwidthThrottleGroup \<Rightarrow>
    js_error option \<times> BandwidthThrottleGroup" where
  "push_if_plain b bytesToPush s =
     (case kind (heap s b) of
        Plain \<Rightarrow> push b bytesToPush False s
      | WithBackpressure \<Rightarrow> (None, s))"

definition process_begin :: "number \<Rightarrow> nat \<Rightarrow> BandwidthThrottleGroup \<Rightarrow> process_state \<times> BandwidthThrottleGroup" where
  "process_begin maxBytesToProcess b s =
     (let t = heap s b; startReadIndex = pendingBytesReadIndex t in
      let endReadIndex = (case readLimit (kind t) maxBytesToProcess of
                            None \<Rightarrow> pendingBytesCount t
                          | Some m \<Rightarrow> min (pendingBytesReadIndex t + m) (pendingBytesCount t));
          bytesToPushLength = endReadIndex - startReadIndex
      in if bytesToPushLength > 0 then
           (case pendingBytesBuffer t of
              None \<Rightarrow> (Settled (Threw TypeError), s)
            | Some buf \<Rightarrow>
                (let bytesToPush = subarray buf startReadIndex endReadIndex;
                     s1 = modify b (\<lambda>t. t\<lparr>pendingBytesReadIndex := endReadIndex\<rparr>) s
                 in case push_if_plain b bytesToPush s1 of
                      (Some e, s2) \<Rightarrow> (Settled (Threw e), s2)
                    | (None, s2) \<Rightarrow>
                        (case trim_buffer b s2 of
                           (Some e, s3) \<Rightarrow> (Settled (Threw e), s3)
                         | (None, s3) \<Rightarrow> (Awaiting bytesToPush bytesToPushLength, s3))))
         else (case process_end bytesToPushLength b s of (r, s') \<Rightarrow> (Settled r, s')))"

definition process_resume :: "byte list \<Rightarrow> rat \<Rightarrow> nat \<Rightarrow> BandwidthThrottleGroup \<Rightarrow>
    rat completion \<times> BandwidthThrottleGroup" where
  "process_resume bytesToPush bytesToPushLength b s =
     (let t = heap s b in
      case kind t of
        Plain \<Rightarrow> process_end bytesToPushLength b s
      | WithBackpressure \<Rightarrow>
          (let formerresolver = resolver_backpressure t
           in case push b bytesToPush formerresolver
                     (modify b (\<lambda>t. t\<lparr>resolver_backpressure := False\<rparr>) s) of
                (Some e, s1) \<Rightarrow> (Threw e, s1)
              | (None, s1) \<Rightarrow> process_end bytesToPushLength b s1))"

text \<open>A call of \<open>process\<close> with nothing else in the turn: the microtask follows at once.\<close>

definition process :: "number \<Rightarrow> nat \<Rightarrow> BandwidthThrottleGroup \<Rightarrow> rat completion \<times> BandwidthThrottleGroup" where
  "process maxBytesToProcess b s =
     (case process_begin maxBytesToProcess b s of
        (Awaiting bytesToPush bytesToPushLength, s1) \<Rightarrow> process_resume bytesToPush bytesToPushLength b s1
      | (Settled r, s1) \<Rightarrow> (r, s1))"

text \<open>
  The two places where \<open>transform\<close> copies the chunk behind the pending bytes:
  \<open>this.pendingBytesBuffer.set\<close> after a compaction and \<open>this.pendingBytesBuffer?.set\<close> (the
  optional call skips a released buffer) otherwise; the count grows in both.
\<close>

definition set_chunk :: "bool \<Rightarrow> byte list \<Rightarrow> nat \<Rightarrow> BandwidthThrottleGroup \<Rightarrow>
    js_error option \<times> BandwidthThrottleGroup" where
  "set_chunk optional chunk b s =
     (let t = heap s b in
      case pendingBytesBuffer t of
        None \<Rightarrow>
          (if optional
           then (None, modify b (\<lambda>t. t\<lparr>pendingBytesCount := pendingBytesCount t + of_nat (length chunk)\<rparr>) s)
           else (Some TypeError, s))
      | Some buf \<Rightarrow>
          (case set_bytes buf chunk (pendingBytesCount t) of
             None \<Rightarrow> (Some RangeError, s)
           | Some buf' \<Rightarrow>
               (None, modify b (\<lambda>t. t\<lparr>pendingBytesBuffer := Some buf',
                                      pendingBytesCount := pendingBytesCount t + of_nat (length chunk)\<rparr>) s)))"

text \<open>The test under which \<open>transform\<close> recomputes the expanded size, by the class of the receiver.\<close>

definition expands :: "kind \<Rightarrow> Config \<Rightarrow> BandwidthThrottle \<Rightarrow> rat \<Rightarrow> rat \<Rightarrow> bool" where
  "expands k c t chunk_length remainingContentInBufferLength =
     (case k of
        Plain \<Rightarrow> pendingBytesBufferExpandedSize t < maxBufferSize c
      | WithBackpressure \<Rightarrow>
          remainingContentInBufferLength + chunk_length > of_int (pendingBytesBufferExpandedSize t))"

text \<open>The parts of \<open>transform\<close>, in the order of the source.\<close>

text \<open>The first chunk, or the first after a pause: the group is told that the request started.\<close>

definition signal_start :: "nat \<Rightarrow> BandwidthThrottleGroup \<Rightarrow> BandwidthThrottleGroup" where
  "signal_start b s =
     (if \<not> isDataBeingWritten (heap s b)
      then modify b (\<lambda>t. t\<lparr>isDataBeingWritten := True\<rparr>) (handleRequestStart b s)
      else s)"

text \<open>The new expanded factor and size for a content of \<open>needed\<close> bytes.\<close>

definition expand :: "rat \<Rightarrow> nat \<Rightarrow> BandwidthThrottleGroup \<Rightarrow> BandwidthThrottleGroup" where
  "expand needed b s =
     (let c = config s; factor = ceil_quotient needed (bytesPerSecond c)
      in modify b (\<lambda>t. t\<lparr>pendingBytesBufferExpandedFactor := factor,
                         pendingBytesBufferExpandedSize :=
                           (if bytesPerSecond c * factor > maxBufferSize c
                            then maxBufferSize c
                            else bytesPerSecond c * factor)\<rparr>) s)"

text \<open>The last statement: an unthrottled group processes the queue at once.\<close>

definition process_if_unthrottled :: "nat \<Rightarrow> BandwidthThrottleGroup \<Rightarrow> BandwidthThrottleGroup" where
  "process_if_unthrottled b s =
     (if \<not> isThrottled (config s) then snd (process Infinity b s) else s)"

definition transform :: "byte list \<Rightarrow> nat \<Rightarrow> BandwidthThrottleGroup \<Rightarrow> unit completion \<times> BandwidthThrottleGroup" where
  "transform chunk b s =
     (let s1 = signal_start b s;
          t = heap s1 b;
          chunk_length = of_nat (length chunk)
      in if chunk_length + pendingBytesCount t > of_int (pendingBytesBufferExpandedSize t) then
           (let remainingContentInBufferLength = pendingBytesCount t - pendingBytesReadIndex t
            in if chunk_length + remainingContentInBufferLength \<le> of_int (maxBufferSize (config s1)) then
                 (let s2 = (if expands (kind t) (config s1) t chunk_length remainingContentInBufferLength
                            then expand (chunk_length + remainingContentInBufferLength) b s1
                            else s1)
                  in case trim_buffer b s2 of
                       (Some e, s3) \<Rightarrow> (Threw e, s3)
                     | (None, s3) \<Rightarrow>
                         (case set_chunk False chunk b s3 of
                            (Some e, s4) \<Rightarrow> (Threw e, s4)
                          | (None, s4) \<Rightarrow> (Returned (), process_if_unthrottled b s4)))
               else (Returned (), handleRequestDestroy b s1))
         else (case set_chunk True chunk b s1 of
                 (Some e, s2) \<Rightarrow> (Threw e, s2)
               | (None, s2) \<Rightarrow> (Returned (), process_if_unthrottled b s2)))"

text \<open>What \<open>flush\<close> hands back: it returns at once, or it returns the deferred \<open>done\<close>.\<close>

datatype flush_result = ReturnsAtOnce | ReturnsDone

definition flush :: "nat \<Rightarrow> BandwidthThrottleGroup \<Rightarrow> flush_result \<times> BandwidthThrottleGroup" where
  "flush b s =
     (let s1 = modify b (\<lambda>t. t\<lparr>isDataBeingWritten := False\<rparr>) s
      in if pendingBytesCount (heap s1 b) = 0 then (ReturnsAtOnce, s1)
         else if \<not> isThrottled (config s1) then (ReturnsAtOnce, destroy b (handleRequestStop b s1))
         else (ReturnsDone, s1))"

section \<open>The group's methods\<close>

definition new_BandwidthThrottleGroup :: "Config \<Rightarrow> BandwidthThrottleGroup" where
  "new_BandwidthThrottleGroup options =
     \<lparr>config = options, inFlightRequests = [], bandwidthThrottles = [], clockIntervalId = None,
      lastTickTime = -1, tickIndex = 0, secondIndex = 0,
      heap = (\<lambda>_. \<lparr>kind = Plain, pendingBytesBuffer = None, pendingBytesCount = 0,
                    pendingBytesReadIndex = 0, pendingBytesBufferExpandedFactor = 1,
                    pendingBytesBufferExpandedSize = 0, isDataBeingWritten = False,
                    done_resolved = False, resolver_backpressure = False, resolved_writes = 0,
                    enqueued = [], terminated = False, readable_locked = False,
                    writable_locked = False\<rparr>),
      allocated = 0\<rparr>"

definition configure :: "Config \<Rightarrow> BandwidthThrottleGroup \<Rightarrow> BandwidthThrottleGroup" where
  "configure options s = s\<lparr>config := options\<rparr>"

text \<open>
  \<open>createBandwidthThrottle\<close>: the constructor of the chosen class, then the push onto
  \<open>bandwidthThrottles\<close>. The result is the reference of the new throttle; \<open>None\<close> stands for
  the \<open>RangeError\<close> of allocating a buffer of negative size.
\<close>

definition createBandwidthThrottle :: "bool \<Rightarrow> BandwidthThrottleGroup \<Rightarrow> (nat \<times> BandwidthThrottleGroup) option" where
  "createBandwidthThrottle backpressure s =
     (let size = bytesPerSecond (config s) * 1 in
      case new_Uint8Array size of
        None \<Rightarrow> None
      | Some buf \<Rightarrow>
          (let b = allocated s;
               t = \<lparr>kind = (if backpressure then WithBackpressure else Plain),
                    pendingBytesBuffer = Some buf, pendingBytesCount = 0,
                    pendingBytesReadIndex = 0, pendingBytesBufferExpandedFactor = 1,
                    pendingBytesBufferExpandedSize = size, isDataBeingWritten = False,
                    done_resolved = False, resolver_backpressure = False, resolved_writes = 0,
                    enqueued = [], terminated = False, readable_locked = False,
                    writable_locked = False\<rparr>
           in Some (b, s\<lparr>heap := (heap s)(b := t), allocated := Suc b,
                         bandwidthThrottles := bandwidthThrottles s @ [b]\<rparr>)))"

text \<open>
  The callback of \<open>inFlightRequests.forEach\<close> at index \<open>i\<close>. It returns the calls of
  \<open>process\<close> left suspended, each with its throttle. What \<open>process\<close> returns is a promise: its
  value goes to \<open>totalBytesProcessed\<close> only and a rejection is handled by nobody, so a settled
  call leaves nothing but its state.
\<close>

definition inFlight_callback :: "rat \<Rightarrow> int \<Rightarrow> nat \<Rightarrow> BandwidthThrottleGroup \<Rightarrow>
    (nat \<times> byte list \<times> rat) list \<times> BandwidthThrottleGroup" where
  "inFlight_callback delayMultiplier period i s =
     (let inFlightRequestsArray = inFlightRequests s;
          b = inFlightRequestsArray ! i;
          t = heap s b
      in if \<not> readable_locked t \<or> \<not> writable_locked t then ([], gracefulAbort b s)
         else
           (let rotatedIndex = (int i + period) mod int (length inFlightRequestsArray);
                bytesPerRequestPerSecond =
                  getPartitionedIntegerPartAtIndex (bytesPerSecond (config s))
                    (int (length inFlightRequestsArray)) rotatedIndex;
                bytesPerRequestPerTick =
                  getPartitionedIntegerPartAtIndex bytesPerRequestPerSecond
                    (ticksPerSecond (config s)) (tickIndex s)
            in case process_begin (Finite (of_int bytesPerRequestPerTick * delayMultiplier)) b s of
                 (Awaiting bytesToPush n, s') \<Rightarrow> ([(b, bytesToPush, n)], s')
               | (Settled r, s') \<Rightarrow> ([], s')))"

text \<open>
  \<open>forEach\<close> visits the indices below the length the array had at the start, in order, and
  skips an index that is no longer in the array when its turn comes.
\<close>

primrec forEach :: "(nat \<Rightarrow> BandwidthThrottleGroup \<Rightarrow> (nat \<times> byte list \<times> rat) list \<times> BandwidthThrottleGroup) \<Rightarrow>
    nat list \<Rightarrow> BandwidthThrottleGroup \<Rightarrow> (nat \<times> byte list \<times> rat) list \<times> BandwidthThrottleGroup" where
  "forEach f [] s = ([], s)"
| "forEach f (i # rest) s =
     (if i < length (inFlightRequests s)
      then (case f i s of (cs, s1) \<Rightarrow> (case forEach f rest s1 of (cs', s2) \<Rightarrow> (cs @ cs', s2)))
      else forEach f rest s)"

text \<open>The suspended calls of \<open>process\<close> resume in the order in which they were suspended.\<close>

primrec microtasks :: "(nat \<times> byte list \<times> rat) list \<Rightarrow> BandwidthThrottleGroup \<Rightarrow> BandwidthThrottleGroup" where
  "microtasks [] s = s"
| "microtasks (c # cs) s =
     (case c of (b, bytesToPush, n) \<Rightarrow> microtasks cs (snd (process_resume bytesToPush n b s)))"

text \<open>
  \<open>processInFlightRequests\<close>, run by the clock with the reading \<open>now\<close> of \<open>Date.now()\<close>. The
  rotation offset \<open>period\<close> is read only inside the loop, which has no turn when the array is
  empty.
\<close>

definition elapsedTime :: "int \<Rightarrow> BandwidthThrottleGroup \<Rightarrow> int" where
  "elapsedTime now s = (if hasTicked s then now - lastTickTime s else 0)"

definition delayMultiplier :: "int \<Rightarrow> BandwidthThrottleGroup \<Rightarrow> rat" where
  "delayMultiplier now s = max 1 (of_int (elapsedTime now s) / tickDurationMs (config s))"

definition period :: "BandwidthThrottleGroup \<Rightarrow> int" where
  "period s = secondIndex s mod int (length (inFlightRequests s))"

definition advance :: "int \<Rightarrow> int \<Rightarrow> BandwidthThrottleGroup \<Rightarrow> BandwidthThrottleGroup" where
  "advance now elapsed s =
     (let s1 = s\<lparr>tickIndex := tickIndex s + 1\<rparr>;
          s2 = (if tickIndex s1 = ticksPerSecond (config s1)
                then s1\<lparr>tickIndex := 0, secondIndex := secondIndex s1 + 1\<rparr>
                else s1)
      in s2\<lparr>lastTickTime := (if hasTicked s2 then lastTickTime s2 + elapsed else now)\<rparr>)"

definition processInFlightRequests :: "int \<Rightarrow> BandwidthThrottleGroup \<Rightarrow> BandwidthThrottleGroup" where
  "processInFlightRequests now s =
     (let elapsed = elapsedTime now s in
      if isThrottled (config s) \<and> hasTicked s \<and> of_int elapsed < tickDurationMs (config s) then s
      else
        (case forEach (inFlight_callback (delayMultiplier now s) (period s))
                [0 ..< length (inFlightRequests s)] s of
           (suspended, s1) \<Rightarrow>
             microtasks suspended (if \<not> isTicking s1 then s1 else advance now elapsed s1)))"

section \<open>Destroying the group\<close>

text \<open>
  The group's \<open>destroy\<close>: while the list is not empty, pop the last throttle and destroy it.
\<close>

lemma length_splice1: "length (splice1 xs k) \<le> length xs"
  by (simp add: splice1_def Let_def)

function destroy_group :: "BandwidthThrottleGroup \<Rightarrow> BandwidthThrottleGroup" where
  "destroy_group s =
     (if length (bandwidthThrottles s) = 0 then s
      else destroy_group (destroy (last (bandwidthThrottles s))
             (s\<lparr>bandwidthThrottles := butlast (bandwidthThrottles s)\<rparr>)))"
  by pat_completeness auto
termination
proof (relation "measure (\<lambda>s. length (bandwidthThrottles s))")
  show "wf (measure (\<lambda>s. length (bandwidthThrottles s)))" by simp
next
  fix s :: BandwidthThrottleGroup
  assume "length (bandwidthThrottles s) \<noteq> 0"
  then have "length (butlast (bandwidthThrottles s)) < length (bandwidthThrottles s)"
    by simp
  moreover have "length (bandwidthThrottles (destroy (last (bandwidthThrottles s))
             (s\<lparr>bandwidthThrottles := butlast (bandwidthThrottles s)\<rparr>))) \<le> length (butlast (bandwidthThrottles s))"
    using length_splice1 [of "butlast (bandwidthThrottles s)"]
    by (simp add: destroy_def handleRequestDestroy_def modify_def Let_def)
  ultimately show "(destroy (last (bandwidthThrottles s))
             (s\<lparr>bandwidthThrottles := butlast (bandwidthThrottles s)\<rparr>), s) \<in> measure (\<lambda>s. length (bandwidthThrottles s))"
    by simp
qed

declare destroy_group.simps [simp del]

section \<open>Reachable states and the clock invariant\<close>

definition clock_inv :: "BandwidthThrottleGroup \<Rightarrow> bool" where
  "clock_inv s =
     ((inFlightRequests s = [] \<longleftrightarrow> clockIntervalId s = None)
      \<and> (clockIntervalId s = None \<longrightarrow> tickIndex s = 0 \<and> secondIndex s = 0 \<and> lastTickTime s = -1))"

text \<open>
  The states a group can reach: from its construction by the calls of its public methods and
  of those of its throttles, by the host locking or unlocking the ends of a throttle, and by
  the clock, which runs \<open>processInFlightRequests\<close> only while it is ticking.
\<close>

inductive reachable :: "BandwidthThrottleGroup \<Rightarrow> bool" where
  constructed: "reachable (new_BandwidthThrottleGroup options)"
| configured: "reachable s \<Longrightarrow> reachable (configure options s)"
| created: "reachable s \<Longrightarrow> createBandwidthThrottle backpressure s = Some (b, s') \<Longrightarrow> reachable s'"
| piped: "reachable s \<Longrightarrow> b < allocated s \<Longrightarrow>
    reachable (modify b (\<lambda>t. t\<lparr>readable_locked := r, writable_locked := w\<rparr>) s)"
| written: "reachable s \<Longrightarrow> b < allocated s \<Longrightarrow> reachable (snd (transform chunk b s))"
| flushed: "reachable s \<Longrightarrow> b < allocated s \<Longrightarrow> reachable (snd (flush b s))"
| processed: "reachable s \<Longrightarrow> b < allocated s \<Longrightarrow> reachable (snd (process maxBytesToProcess b s))"
| aborted: "reachable s \<Longrightarrow> b < allocated s \<Longrightarrow> reachable (abort b s)"
| gracefully_aborted: "reachable s \<Longrightarrow> b < allocated s \<Longrightarrow> reachable (gracefulAbort b s)"
| destroyed: "reachable s \<Longrightarrow> b < allocated s \<Longrightarrow> reachable (destroy b s)"
| ticked: "reachable s \<Longrightarrow> isTicking s \<Longrightarrow> reachable (processInFlightRequests now s)"
| group_destroyed: "reachable s \<Longrightarrow> reachable (destroy_group s)"

text \<open>What tells a finalized throttle from a live one, with the group's registries.\<close>

definition lifecycle :: "BandwidthThrottleGroup \<Rightarrow> nat \<Rightarrow>
    Config \<times> nat list \<times> nat list \<times> Timeout option \<times> bool \<times> bool" where
  "lifecycle s b = (config s, inFlightRequests s, bandwidthThrottles s, clockIntervalId s,
                    done_resolved (heap s b), terminated (heap s b))"

section \<open>Example configurations and states\<close>

definition seed_config :: Config where
  "seed_config = \<lparr>bytesPerSecond = 100, ticksPerSecond = 10, maxBufferSize = 10000, isThrottled = True\<rparr>"

definition one_throttle :: "bool \<Rightarrow> Config \<Rightarrow> BandwidthThrottleGroup" where
  "one_throttle backpressure options =
     modify 0 (\<lambda>t. t\<lparr>readable_locked := True, writable_locked := True\<rparr>)
       (snd (the (createBandwidthThrottle backpressure (new_BandwidthThrottleGroup options))))"

definition unthrottled_config :: Config where
  "unthrottled_config = \<lparr>bytesPerSecond = 100, ticksPerSecond = 10, maxBufferSize = 10000, isThrottled = False\<rparr>"

definition overflow_config :: Config where
  "overflow_config = \<lparr>bytesPerSecond = 100, ticksPerSecond = 10, maxBufferSize = 1000, isThrottled = True\<rparr>"

definition two_throttles :: "Config \<Rightarrow> BandwidthThrottleGroup" where
  "two_throttles options =
     snd (the (createBandwidthThrottle False
       (snd (the (createBandwidthThrottle False (new_BandwidthThrottleGroup options))))))"

definition unthrottled_written :: BandwidthThrottleGroup where
  "unthrottled_written = snd (transform [1, 2, 3] 0 (one_throttle False unthrottled_config))"



definition period_over :: BandwidthThrottleGroup where
  "period_over =
     processInFlightRequests 1100
       (snd (flush 0 (processInFlightRequests 1000
          (snd (transform [1, 2, 3] 0 (one_throttle False seed_config))))))"

section \<open>Pending bytes, call sequences and well-formed buffers\<close>

definition pending :: "BandwidthThrottleGroup \<Rightarrow> nat \<Rightarrow> byte list" where
  "pending s b =
     (case pendingBytesBuffer (heap s b) of
        None \<Rightarrow> []
      | Some buf \<Rightarrow> subarray buf (pendingBytesReadIndex (heap s b)) (pendingBytesCount (heap s b)))"

definition emitted :: "BandwidthThrottleGroup \<Rightarrow> nat \<Rightarrow> byte list" where
  "emitted s b = concat (enqueued (heap s b))"

definition valid_config :: "Config \<Rightarrow> bool" where
  "valid_config c = (0 < bytesPerSecond c \<and> bytesPerSecond c \<le> maxBufferSize c)"

definition live :: "BandwidthThrottleGroup \<Rightarrow> nat \<Rightarrow> bool" where
  "live s b =
     (let t = heap s b in
      pendingBytesReadIndex t = 0 \<and> 0 \<le> pendingBytesCount t \<and> pendingBytesCount t \<in> \<int>
      \<and> \<not> resolver_backpressure t
      \<and> (case pendingBytesBuffer t of
            None \<Rightarrow> pendingBytesCount t = 0
          | Some buf \<Rightarrow> \<not> terminated t
                        \<and> pendingBytesCount t \<le> of_int (pendingBytesBufferExpandedSize t)
                        \<and> int (length buf) = pendingBytesBufferExpandedSize t
                        \<and> pendingBytesBufferExpandedSize t \<le> maxBufferSize (config s)))"

definition drained :: "BandwidthThrottleGroup \<Rightarrow> nat \<Rightarrow> bool" where
  "drained s b = (\<not> isThrottled (config s) \<longrightarrow> pendingBytesCount (heap s b) = 0)"

definition compact :: "int \<Rightarrow> BandwidthThrottle \<Rightarrow> BandwidthThrottle" where
  "compact r t =
     t\<lparr>pendingBytesBuffer :=
          Some (take (nat (\<lfloor>pendingBytesCount t\<rfloor> - r)) (drop (nat r) (the (pendingBytesBuffer t)))
                @ replicate (nat (pendingBytesBufferExpandedSize t) - nat (\<lfloor>pendingBytesCount t\<rfloor> - r)) 0),
       pendingBytesReadIndex := 0,
       pendingBytesCount := pendingBytesCount t - of_int r\<rparr>"

definition emit :: "int \<Rightarrow> BandwidthThrottle \<Rightarrow> BandwidthThrottle" where
  "emit e t = (compact e t)\<lparr>enqueued := enqueued t @ [take (nat e) (the (pendingBytesBuffer t))]\<rparr>"

text \<open>The number of bytes a call of process takes from a count of c under a limit.\<close>

definition taken :: "int option \<Rightarrow> rat \<Rightarrow> int" where
  "taken limit c = (case limit of None \<Rightarrow> \<lfloor>c\<rfloor> | Some m \<Rightarrow> min m \<lfloor>c\<rfloor>)"

definition overflows :: "byte list \<Rightarrow> nat \<Rightarrow> BandwidthThrottleGroup \<Rightarrow> bool" where
  "overflows chunk b s =
     (let t = heap s b in
      of_nat (length chunk) + pendingBytesCount t > of_int (pendingBytesBufferExpandedSize t)
      \<and> of_nat (length chunk) + (pendingBytesCount t - pendingBytesReadIndex t)
          > of_int (maxBufferSize (config s)))"

text \<open>What transform stores on a buffer that holds the chunk behind the pending bytes.\<close>

definition store :: "byte list \<Rightarrow> BandwidthThrottle \<Rightarrow> BandwidthThrottle" where
  "store chunk t =
     t\<lparr>pendingBytesBuffer :=
          Some (take (nat \<lfloor>pendingBytesCount t\<rfloor>) (the (pendingBytesBuffer t)) @ chunk
                @ drop (nat \<lfloor>pendingBytesCount t\<rfloor> + length chunk) (the (pendingBytesBuffer t))),
       pendingBytesCount := pendingBytesCount t + of_nat (length chunk)\<rparr>"

definition stored :: "byte list \<Rightarrow> nat \<Rightarrow> BandwidthThrottleGroup \<Rightarrow> BandwidthThrottleGroup" where
  "stored chunk b s =
     (let s1 = signal_start b s;
          needed = of_nat (length chunk) + pendingBytesCount (heap s b)
      in if needed > of_int (pendingBytesBufferExpandedSize (heap s b))
         then modify b (store chunk) (modify b (compact 0) (expand needed b s1))
         else modify b (store chunk) s1)"

datatype call = Write "byte list" | Process number | Flush

fun call_on :: "nat \<Rightarrow> call \<Rightarrow> BandwidthThrottleGroup \<Rightarrow> BandwidthThrottleGroup" where
  "call_on b (Write chunk) s = snd (transform chunk b s)"
| "call_on b (Process maxBytes) s = snd (process maxBytes b s)"
| "call_on b Flush s = snd (flush b s)"

primrec calls_on :: "nat \<Rightarrow> call list \<Rightarrow> BandwidthThrottleGroup \<Rightarrow> BandwidthThrottleGroup" where
  "calls_on b [] s = s"
| "calls_on b (c # cs) s = calls_on b cs (call_on b c s)"

fun bytes_of :: "call \<Rightarrow> byte list" where
  "bytes_of (Write chunk) = chunk"
| "bytes_of (Process maxBytes) = []"
| "bytes_of Flush = []"

definition written :: "call list \<Rightarrow> byte list" where
  "written cs = concat (map bytes_of cs)"

text \<open>A number without a fraction, \<open>Infinity\<close> included.\<close>

fun whole :: "number \<Rightarrow> bool" where
  "whole Infinity = True"
| "whole (Finite m) = (m \<in> \<int>)"

text \<open>The bound of \<open>readLimit\<close> as an integer, when it is one.\<close>

fun bound :: "kind \<Rightarrow> number \<Rightarrow> int option" where
  "bound k Infinity = None"
| "bound WithBackpressure (Finite m) = Some \<lfloor>m + 1 / 2\<rfloor>"
| "bound Plain (Finite m) = Some \<lfloor>m\<rfloor>"

text \<open>
  The calls a sequence may hold: a write that finds the buffer and fits, and on the plain
  class a \<open>process\<close> whose number has no fraction (the backpressure class rounds it).
\<close>

fun acceptable :: "nat \<Rightarrow> call \<Rightarrow> BandwidthThrottleGroup \<Rightarrow> bool" where
  "acceptable b (Write chunk) s = (pendingBytesBuffer (heap s b) \<noteq> None \<and> \<not> overflows chunk b s)"
| "acceptable b (Process maxBytes) s = (kind (heap s b) = WithBackpressure \<or> whole maxBytes)"
| "acceptable b Flush s = True"

primrec accepted :: "nat \<Rightarrow> call list \<Rightarrow> BandwidthThrottleGroup \<Rightarrow> bool" where
  "accepted b [] s = True"
| "accepted b (c # cs) s = (acceptable b c s \<and> accepted b cs (call_on b c s))"

definition compactable :: "BandwidthThrottleGroup \<Rightarrow> nat \<Rightarrow> bool" where
  "compactable s b =
     (let t = heap s b in
      case pendingBytesBuffer t of
        None \<Rightarrow> False
      | Some buf \<Rightarrow>
          0 \<le> pendingBytesReadIndex t \<and> pendingBytesReadIndex t \<le> pendingBytesCount t
          \<and> pendingBytesCount t \<le> of_nat (length buf)
          \<and> pendingBytesCount t - pendingBytesReadIndex t \<le> of_int (maxBufferSize (config s))
          \<and> pendingBytesCount t - pendingBytesReadIndex t
              \<le> of_int (pendingBytesBufferExpandedSize t)
          \<and> pendingBytesReadIndex t \<in> \<int> \<and> pendingBytesCount t \<in> \<int>)"

definition steady :: "BandwidthThrottleGroup \<Rightarrow> nat \<Rightarrow> bool" where
  "steady s b = (live s b \<and> drained s b \<and> valid_config (config s))"

definition tiny_config :: Config where
  "tiny_config = \<lparr>bytesPerSecond = 2, ticksPerSecond = 1, maxBufferSize = 4, isThrottled = True\<rparr>"

definition fresh :: "bool \<Rightarrow> Config \<Rightarrow> BandwidthThrottleGroup" where
  "fresh backpressure options =
     snd (the (createBandwidthThrottle backpressure (new_BandwidthThrottleGroup options)))"


definition half_read :: BandwidthThrottleGroup where
  "half_read =
     modify 0 (\<lambda>t. t\<lparr>pendingBytesReadIndex := 1\<rparr>)
       (calls_on 0 [Write [1, 2, 3]] (fresh False tiny_config))"

section \<open>Evaluation and frame lemmas\<close>

lemmas eval_defs = one_throttle_def seed_config_def transform_def createBandwidthThrottle_def new_BandwidthThrottleGroup_def
     new_Uint8Array_def handleRequestStart_def handleRequestDestroy_def handleRequestStop_def modify_def startClock_def
     stopClock_def splice1_def Let_def signal_start_def expand_def process_if_unthrottled_def process_def process_begin_def
     process_end_def process_resume_def trim_buffer_def set_chunk_def set_bytes_def subarray_def relativeIndex_def
     ClampNum_def ceil_quotient_def expands_def push_def push_if_plain_def ToIntegerOrInfinity_def
     destroy_def flush_def processInFlightRequests_def
     inFlight_callback_def elapsedTime_def delayMultiplier_def period_def advance_def hasTicked_def isTicking_def
     tickDurationMs_def getPartitionedIntegerPartAtIndex_def gracefulAbort_def abort_def

lemma trim_buffer_frame [simp]:
  "config (snd (trim_buffer b s)) = config s"
  "inFlightRequests (snd (trim_buffer b s)) = inFlightRequests s"
  "bandwidthThrottles (snd (trim_buffer b s)) = bandwidthThrottles s"
  "clockIntervalId (snd (trim_buffer b s)) = clockIntervalId s"
  "done_resolved (heap (snd (trim_buffer b s)) b') = done_resolved (heap s b')"
  "terminated (heap (snd (trim_buffer b s)) b') = terminated (heap s b')"
  "isDataBeingWritten (heap (snd (trim_buffer b s)) b') = isDataBeingWritten (heap s b')"
  "kind (heap (snd (trim_buffer b s)) b') = kind (heap s b')"
  "enqueued (heap (snd (trim_buffer b s)) b') = enqueued (heap s b')"
  by (simp_all add: trim_buffer_def modify_def Let_def split: kind.splits option.splits)

lemma push_frame [simp]:
  "config (snd (push b c r s)) = config s"
  "inFlightRequests (snd (push b c r s)) = inFlightRequests s"
  "bandwidthThrottles (snd (push b c r s)) = bandwidthThrottles s"
  "clockIntervalId (snd (push b c r s)) = clockIntervalId s"
  "done_resolved (heap (snd (push b c r s)) b') = done_resolved (heap s b')"
  "terminated (heap (snd (push b c r s)) b') = terminated (heap s b')"
  "isDataBeingWritten (heap (snd (push b c r s)) b') = isDataBeingWritten (heap s b')"
  "kind (heap (snd (push b c r s)) b') = kind (heap s b')"
  by (simp_all add: push_def modify_def)

lemma push_if_plain_frame [simp]:
  "config (snd (push_if_plain b c s)) = config s"
  "inFlightRequests (snd (push_if_plain b c s)) = inFlightRequests s"
  "bandwidthThrottles (snd (push_if_plain b c s)) = bandwidthThrottles s"
  "clockIntervalId (snd (push_if_plain b c s)) = clockIntervalId s"
  "done_resolved (heap (snd (push_if_plain b c s)) b') = done_resolved (heap s b')"
  "terminated (heap (snd (push_if_plain b c s)) b') = terminated (heap s b')"
  "isDataBeingWritten (heap (snd (push_if_plain b c s)) b') = isDataBeingWritten (heap s b')"
  "kind (heap (snd (push_if_plain b c s)) b') = kind (heap s b')"
  by (simp_all add: push_if_plain_def split: kind.splits)

lemma modify_frame [simp]:
  "config (modify b f s) = config s"
  "inFlightRequests (modify b f s) = inFlightRequests s"
  "bandwidthThrottles (modify b f s) = bandwidthThrottles s"
  "clockIntervalId (modify b f s) = clockIntervalId s"
  "tickIndex (modify b f s) = tickIndex s"
  "secondIndex (modify b f s) = secondIndex s"
  "lastTickTime (modify b f s) = lastTickTime s"
  "allocated (modify b f s) = allocated s"
  "heap (modify b f s) b' = (if b' = b then f (heap s b) else heap s b')"
  by (simp_all add: modify_def)

lemma clock_inv_modify [simp]: "clock_inv (modify b f s) = clock_inv s"
  by (simp add: clock_inv_def modify_def)

lemma clock_inv_handleRequestStart: "clock_inv s \<Longrightarrow> clock_inv (handleRequestStart b s)"
  by (auto simp: clock_inv_def handleRequestStart_def Let_def)

lemma splice1_Nil [simp]: "splice1 [] k = []"
  by (simp add: splice1_def)

lemma clock_inv_handleRequestStop: "clock_inv s \<Longrightarrow> clock_inv (handleRequestStop b s)"
  by (auto simp: clock_inv_def handleRequestStop_def stopClock_def modify_def Let_def)

lemma clock_inv_handleRequestDestroy: "clock_inv s \<Longrightarrow> clock_inv (handleRequestDestroy b s)"
  by (auto simp: clock_inv_def handleRequestDestroy_def modify_def Let_def)

lemma clock_inv_destroy: "clock_inv s \<Longrightarrow> clock_inv (destroy b s)"
  by (simp add: destroy_def clock_inv_handleRequestDestroy)

lemma clock_inv_abort: "clock_inv s \<Longrightarrow> clock_inv (abort b s)"
  by (simp add: abort_def clock_inv_destroy clock_inv_handleRequestStop)

lemma clock_inv_gracefulAbort: "clock_inv s \<Longrightarrow> clock_inv (gracefulAbort b s)"
  by (simp add: gracefulAbort_def clock_inv_destroy clock_inv_handleRequestStop)

lemma clock_inv_push: "clock_inv (snd (push b c r s)) = clock_inv s"
  by (simp add: push_def)

lemma clock_inv_push_if_plain: "clock_inv (snd (push_if_plain b c s)) = clock_inv s"
  by (simp add: push_if_plain_def clock_inv_push split: kind.splits)

lemma clock_inv_trim_buffer: "clock_inv s \<Longrightarrow> clock_inv (snd (trim_buffer b s))"
  by (simp add: trim_buffer_def Let_def split: kind.splits option.splits)

lemma clock_inv_process_end: "clock_inv s \<Longrightarrow> clock_inv (snd (process_end n b s))"
  by (simp add: process_end_def Let_def clock_inv_destroy clock_inv_handleRequestStop)

lemma clock_inv_process_begin: "clock_inv s \<Longrightarrow> clock_inv (snd (process_begin m b s))"
  by (simp add: process_begin_def Let_def clock_inv_push_if_plain clock_inv_trim_buffer
        clock_inv_process_end case_prod_beta split: option.splits)

lemma clock_inv_process_resume: "clock_inv s \<Longrightarrow> clock_inv (snd (process_resume bs n b s))"
  by (simp add: process_resume_def Let_def clock_inv_process_end clock_inv_push case_prod_beta
        split: kind.splits option.splits)

lemma clock_inv_process: "clock_inv s \<Longrightarrow> clock_inv (snd (process m b s))"
  using clock_inv_process_begin [of s m b] clock_inv_process_resume [of "snd (process_begin m b s)" _ _ b]
  by (auto simp: process_def split: prod.splits process_state.splits)

lemma clock_inv_set_chunk: "clock_inv s \<Longrightarrow> clock_inv (snd (set_chunk opt chunk b s))"
  by (simp add: set_chunk_def Let_def split: option.splits)

lemma clock_inv_signal_start: "clock_inv s \<Longrightarrow> clock_inv (signal_start b s)"
  by (simp add: signal_start_def clock_inv_handleRequestStart)

lemma clock_inv_expand: "clock_inv (expand n b s) = clock_inv s"
  by (simp add: expand_def Let_def)

lemma clock_inv_process_if_unthrottled: "clock_inv s \<Longrightarrow> clock_inv (process_if_unthrottled b s)"
  by (simp add: process_if_unthrottled_def clock_inv_process)

lemma clock_inv_transform: "clock_inv s \<Longrightarrow> clock_inv (snd (transform chunk b s))"
  by (simp add: transform_def Let_def case_prod_beta clock_inv_signal_start clock_inv_expand
        clock_inv_trim_buffer clock_inv_set_chunk clock_inv_process_if_unthrottled
        clock_inv_handleRequestDestroy split: option.splits)

lemma clock_inv_flush: "clock_inv s \<Longrightarrow> clock_inv (snd (flush b s))"
  by (simp add: flush_def Let_def clock_inv_destroy clock_inv_handleRequestStop)

lemma clock_inv_create:
  "clock_inv s \<Longrightarrow> createBandwidthThrottle bp s = Some (b, s') \<Longrightarrow> clock_inv s'"
  by (auto simp: createBandwidthThrottle_def clock_inv_def Let_def split: option.splits)

lemma clock_inv_configure: "clock_inv (configure options s) = clock_inv s"
  by (simp add: configure_def clock_inv_def)

lemma clock_inv_inFlight_callback:
  "clock_inv s \<Longrightarrow> clock_inv (snd (inFlight_callback d p i s))"
  by (simp add: inFlight_callback_def Let_def case_prod_beta clock_inv_gracefulAbort
        clock_inv_process_begin split: process_state.splits)

lemma clock_inv_forEach:
  "(\<And>i s. clock_inv s \<Longrightarrow> clock_inv (snd (f i s))) \<Longrightarrow> clock_inv s
     \<Longrightarrow> clock_inv (snd (forEach f is s))"
  by (induction "is" arbitrary: s) (simp_all add: case_prod_beta)

lemma clock_inv_microtasks: "clock_inv s \<Longrightarrow> clock_inv (microtasks cs s)"
  by (induction cs arbitrary: s) (simp_all add: case_prod_beta clock_inv_process_resume)

lemma clock_inv_advance: "clock_inv s \<Longrightarrow> isTicking s \<Longrightarrow> clock_inv (advance now e s)"
  by (simp add: clock_inv_def advance_def isTicking_def Let_def)

lemma clock_inv_processInFlightRequests:
  "clock_inv s \<Longrightarrow> clock_inv (processInFlightRequests now s)"
  by (simp add: processInFlightRequests_def Let_def case_prod_beta clock_inv_microtasks
        clock_inv_advance clock_inv_forEach clock_inv_inFlight_callback)

lemma clock_inv_destroy_group: "clock_inv s \<Longrightarrow> clock_inv (destroy_group s)"
proof (induction s rule: destroy_group.induct)
  case (1 s)
  have "clock_inv (s\<lparr>bandwidthThrottles := butlast (bandwidthThrottles s)\<rparr>)"
    using "1.prems" by (simp add: clock_inv_def)
  then show ?case
    using "1.IH" by (subst destroy_group.simps) (simp add: clock_inv_destroy "1.prems")
qed

lemma reachable_clock_inv: "reachable s \<Longrightarrow> clock_inv s"
proof (induction rule: reachable.induct)
  case (constructed options)
  show ?case by (simp add: clock_inv_def new_BandwidthThrottleGroup_def)
next
  case (created s backpressure b s')
  then show ?case by (blast intro: clock_inv_create)
qed (simp_all add: clock_inv_configure clock_inv_transform clock_inv_flush clock_inv_process
       clock_inv_abort clock_inv_gracefulAbort clock_inv_destroy clock_inv_processInFlightRequests
       clock_inv_destroy_group)

lemma reachable_one_throttle:
  "0 \<le> bytesPerSecond options \<Longrightarrow> reachable (one_throttle backpressure options)"
proof -
  assume n: "0 \<le> bytesPerSecond options"
  let ?g = "new_BandwidthThrottleGroup options"
  obtain s' where c: "createBandwidthThrottle backpressure ?g = Some (0, s')"
    using n by (simp add: createBandwidthThrottle_def new_Uint8Array_def new_BandwidthThrottleGroup_def Let_def)
  have r: "reachable s'"
    using reachable.constructed c by (rule reachable.created)
  have "0 < allocated s'"
    using c by (auto simp: createBandwidthThrottle_def new_Uint8Array_def new_BandwidthThrottleGroup_def Let_def split: if_splits)
  with r have "reachable (modify 0 (\<lambda>t. t\<lparr>readable_locked := True, writable_locked := True\<rparr>) s')"
    by (rule reachable.piped)
  then show ?thesis
    using c by (simp add: one_throttle_def)
qed

lemma allocated_one_throttle: "0 \<le> bytesPerSecond options \<Longrightarrow> allocated (one_throttle backpressure options) = 1"
  by (simp add: one_throttle_def createBandwidthThrottle_def new_Uint8Array_def new_BandwidthThrottleGroup_def Let_def)

lemma reachable_written:
  "reachable (snd (transform [1, 2, 3] 0 (one_throttle False seed_config)))"
  by (rule reachable.written, rule reachable_one_throttle)
     (simp_all add: seed_config_def allocated_one_throttle)

lemma period_over_steps:
  "allocated (snd (transform [1, 2, 3] 0 (one_throttle False seed_config))) = 1"
  "isTicking (snd (transform [1, 2, 3] 0 (one_throttle False seed_config)))"
  "allocated (processInFlightRequests 1000 (snd (transform [1, 2, 3] 0 (one_throttle False seed_config)))) = 1"
  "isTicking (snd (flush 0 (processInFlightRequests 1000
          (snd (transform [1, 2, 3] 0 (one_throttle False seed_config))))))"
  by (simp_all add: eval_defs)

lemma reachable_period_over: "reachable period_over"
  unfolding period_over_def
  by (intro reachable.ticked reachable.flushed reachable_written) (simp_all add: period_over_steps)

lemma process_end_unthrottled:
  "\<not> isThrottled (config s) \<Longrightarrow> process_end n b s = (Returned n, s)"
  by (simp add: process_end_def)

lemma lifecycle_trim_buffer: "lifecycle (snd (trim_buffer b s)) b' = lifecycle s b'"
  by (simp add: lifecycle_def)

lemma lifecycle_push: "lifecycle (snd (push b c r s)) b' = lifecycle s b'"
  by (simp add: lifecycle_def)

lemma lifecycle_push_if_plain: "lifecycle (snd (push_if_plain b c s)) b' = lifecycle s b'"
  by (simp add: lifecycle_def)

lemma lifecycle_modify:
  "done_resolved (f (heap s b)) = done_resolved (heap s b) \<Longrightarrow>
   terminated (f (heap s b)) = terminated (heap s b) \<Longrightarrow>
   lifecycle (modify b f s) b' = lifecycle s b'"
  by (simp add: lifecycle_def)

lemma lifecycle_process_begin:
  assumes "\<not> isThrottled (config s)"
  shows "lifecycle (snd (process_begin m b s)) b' = lifecycle s b'"
  using assms
  by (simp add: process_begin_def process_end_unthrottled Let_def case_prod_beta
        lifecycle_trim_buffer lifecycle_push_if_plain lifecycle_modify
        split: option.splits)

lemma lifecycle_process_resume:
  assumes "\<not> isThrottled (config s)"
  shows "lifecycle (snd (process_resume bs n b s)) b' = lifecycle s b'"
  using assms
  by (simp add: process_resume_def process_end_unthrottled Let_def case_prod_beta
        lifecycle_push lifecycle_modify split: kind.splits option.splits)

lemma lifecycle_process:
  assumes "\<not> isThrottled (config s)"
  shows "lifecycle (snd (process m b s)) b' = lifecycle s b'"
proof (cases "process_begin m b s")
  case (Pair r s1)
  have l: "lifecycle s1 b' = lifecycle s b'"
    using lifecycle_process_begin [OF assms, of m b b'] Pair by simp
  then have "\<not> isThrottled (config s1)"
    using assms by (simp add: lifecycle_def)
  then show ?thesis
    using Pair l lifecycle_process_resume [of s1 _ _ b b']
    by (simp add: process_def split: process_state.splits)
qed

section \<open>The throttle on a well-formed buffer\<close>

lemma ToIntegerOrInfinity_of_int [simp]: "ToIntegerOrInfinity (of_int n) = n"
  by (simp add: ToIntegerOrInfinity_def)

lemma ToIntegerOrInfinity_of_nat [simp]: "ToIntegerOrInfinity (of_nat n) = int n"
  using ToIntegerOrInfinity_of_int [of "int n"] by simp

lemma ToIntegerOrInfinity_zero [simp]: "ToIntegerOrInfinity 0 = 0"
  by (simp add: ToIntegerOrInfinity_def)

lemma subarray_take_drop:
  "0 \<le> i \<Longrightarrow> i \<le> j \<Longrightarrow> j \<le> int (length a) \<Longrightarrow>
   subarray a (of_int i) (of_int j) = take (nat (j - i)) (drop (nat i) a)"
  by (simp add: subarray_def relativeIndex_def Let_def min_def nat_diff_distrib)

lemma subarray_front:
  "0 \<le> j \<Longrightarrow> j \<le> int (length a) \<Longrightarrow> subarray a 0 (of_int j) = take (nat j) a"
  using subarray_take_drop [of 0 j a] by simp

lemma set_bytes_front:
  "int (length src) \<le> n \<Longrightarrow>
   set_bytes (replicate (nat n) 0) src 0 = Some (src @ replicate (nat n - length src) 0)"
  by (simp add: set_bytes_def)

lemma trim_buffer_live:
  assumes "pendingBytesBuffer (heap s b) = Some buf"
    and ri: "pendingBytesReadIndex (heap s b) = of_int r"
    and ci: "pendingBytesCount (heap s b) = of_int c"
    and "0 \<le> r" and "r \<le> c" and "c \<le> int (length buf)"
    and "c - r \<le> maxBufferSize (config s)"
    and "c - r \<le> pendingBytesBufferExpandedSize (heap s b)"
  shows "trim_buffer b s = (None, modify b (compact r) s)"
proof -
  let ?t = "heap s b"
  let ?tr = "take (nat (c - r)) (drop (nat r) buf)"
  have sub: "subarray buf (of_int r) (of_int c) = ?tr"
    using assms by (simp add: subarray_take_drop)
  have len: "int (length ?tr) = c - r"
    using assms by simp
  have ln: "(of_nat (length ?tr) :: rat) = of_int c - of_int r"
  proof -
    have "(of_nat (length ?tr) :: rat) = of_int (int (length ?tr))" by simp
    then show ?thesis unfolding len by simp
  qed
  have size: "0 \<le> pendingBytesBufferExpandedSize ?t"
    using assms by linarith
  have fresh: "new_Uint8Array (pendingBytesBufferExpandedSize ?t)
                 = Some (replicate (nat (pendingBytesBufferExpandedSize ?t)) 0)"
    using size by (simp add: new_Uint8Array_def)
  have fill: "set_bytes (replicate (nat (pendingBytesBufferExpandedSize ?t)) 0) ?tr 0
                = Some (?tr @ replicate (nat (pendingBytesBufferExpandedSize ?t) - length ?tr) 0)"
    using len assms(8) by (intro set_bytes_front) linarith
  have l2: "min (length buf - nat r) (nat (c - r)) = nat (c - r)"
    using assms by linarith
  have "(of_int (c - r) :: rat) \<le> of_int (maxBufferSize (config s))" "(0 :: rat) \<le> of_int (c - r)"
    using assms(5,7) by simp_all
  then have clamp: "ClampNum (of_int c - of_int r) 0 (of_int (maxBufferSize (config s)))
                      = of_int c - of_int r"
    by (simp add: ClampNum_def)
  have fl: "\<lfloor>pendingBytesCount ?t\<rfloor> = c" by (simp add: ci)
  show ?thesis
    unfolding trim_buffer_def Let_def ri ci sub assms(1) option.case fresh fill clamp ln
    by (cases "kind ?t") (simp_all add: l2 compact_def assms(1) fl ci modify_def)
qed

lemma modify_modify: "modify b f (modify b g s) = modify b (\<lambda>t. f (g t)) s"
  by (simp add: modify_def)

lemma modify_cong: "f (heap s b) = g (heap s b) \<Longrightarrow> modify b f s = modify b g s"
  by (simp add: modify_def)

lemma taken_of_int:
  "(case map_option of_int limit of None \<Rightarrow> (of_int c :: rat) | Some m \<Rightarrow> min (0 + m) (of_int c))
     = of_int (taken limit (of_int c))"
  by (simp add: taken_def min_def split: option.splits)

lemma process_begin_nothing:
  assumes lim: "readLimit (kind (heap s b)) q = map_option of_int limit"
    and r0: "pendingBytesReadIndex (heap s b) = 0"
    and ci: "pendingBytesCount (heap s b) = of_int c"
    and none: "taken limit (of_int c) \<le> 0"
  shows "process_begin q b s =
           (Settled (fst (process_end (of_int (taken limit (of_int c))) b s)),
            snd (process_end (of_int (taken limit (of_int c))) b s))"
proof -
  have e: "(case readLimit (kind (heap s b)) q of
              None \<Rightarrow> pendingBytesCount (heap s b)
            | Some m \<Rightarrow> min (0 + m) (pendingBytesCount (heap s b)))
           = of_int (taken limit (of_int c))"
    unfolding lim ci by (rule taken_of_int)
  have n: "\<not> 0 < (of_int (taken limit (of_int c)) :: rat)"
    using none by simp
  show ?thesis
    unfolding process_begin_def Let_def e r0 diff_zero if_not_P [OF n]
    by (simp add: case_prod_beta)
qed

lemma process_begin_live:
  assumes lim: "readLimit (kind (heap s b)) q = map_option of_int limit"
    and buf: "pendingBytesBuffer (heap s b) = Some buf"
    and r0: "pendingBytesReadIndex (heap s b) = 0"
    and ci: "pendingBytesCount (heap s b) = of_int c"
    and cnt: "c \<le> int (length buf)"
    and size: "int (length buf) = pendingBytesBufferExpandedSize (heap s b)"
    and mx: "pendingBytesBufferExpandedSize (heap s b) \<le> maxBufferSize (config s)"
    and live: "\<not> terminated (heap s b)"
    and pos: "0 < taken limit (of_int c)"
  shows "process_begin q b s =
           (Awaiting (take (nat (taken limit (of_int c))) buf) (of_int (taken limit (of_int c))),
            modify b (case kind (heap s b) of
                        Plain \<Rightarrow> emit (taken limit (of_int c))
                      | WithBackpressure \<Rightarrow> compact (taken limit (of_int c))) s)"
proof -
  let ?t = "heap s b"
  let ?e = "taken limit (of_int c)"
  let ?bs = "take (nat ?e) buf"
  have e_le: "?e \<le> c"
    by (simp add: taken_def split: option.splits)
  have sub: "subarray buf 0 (of_int ?e) = ?bs"
    using pos e_le cnt by (simp add: subarray_front)
  let ?s1 = "modify b (\<lambda>t. t\<lparr>pendingBytesReadIndex := of_int ?e\<rparr>) s"
  let ?s2 = "snd (push_if_plain b ?bs ?s1)"
  have ok: "fst (push_if_plain b ?bs ?s1) = None"
    using live by (simp add: push_if_plain_def push_def split: kind.splits)
  have h2: "pendingBytesBuffer (heap ?s2 b) = Some buf"
    "pendingBytesReadIndex (heap ?s2 b) = of_int ?e"
    "pendingBytesCount (heap ?s2 b) = of_int c"
    "pendingBytesBufferExpandedSize (heap ?s2 b) = pendingBytesBufferExpandedSize ?t"
    "config ?s2 = config s"
    using live by (simp_all add: push_if_plain_def push_def buf ci split: kind.splits)
  have trim: "trim_buffer b ?s2 = (None, modify b (compact ?e) ?s2)"
    using trim_buffer_live [of ?s2 b buf ?e c] h2 pos e_le cnt size mx by simp
  have res: "modify b (compact ?e) ?s2
               = modify b (case kind ?t of Plain \<Rightarrow> emit ?e | WithBackpressure \<Rightarrow> compact ?e) s"
  proof (cases "kind ?t")
    case Plain
    have "compact ?e (heap ?s2 b) = emit ?e ?t"
      using live Plain
      by (intro BandwidthThrottle.equality)
         (simp_all add: push_if_plain_def push_def compact_def emit_def buf)
    then show ?thesis
      using Plain live by (simp add: modify_def push_if_plain_def push_def)
  next
    case WithBackpressure
    have "compact ?e (heap ?s2 b) = compact ?e ?t"
      using WithBackpressure
      by (intro BandwidthThrottle.equality) (simp_all add: push_if_plain_def compact_def)
    then show ?thesis
      using WithBackpressure by (simp add: modify_def push_if_plain_def)
  qed
  show ?thesis
proof -
    have e: "(case readLimit (kind (heap s b)) q of
                None \<Rightarrow> pendingBytesCount (heap s b)
              | Some m \<Rightarrow> min (0 + m) (pendingBytesCount (heap s b)))
             = of_int (taken limit (of_int c))"
      unfolding lim ci by (rule taken_of_int)
    have p: "0 < (of_int (taken limit (of_int c)) :: rat)"
      using pos by simp
    show ?thesis
      unfolding process_begin_def Let_def r0 e diff_zero if_P [OF p] buf option.case sub
        case_prod_beta ok trim res
      by simp
  qed
qed

lemma live_count:
  assumes "live s b"
  obtains c where "pendingBytesCount (heap s b) = of_int c" and "0 \<le> c"
    and "pendingBytesReadIndex (heap s b) = 0" and "\<not> resolver_backpressure (heap s b)"
proof -
  have i: "pendingBytesCount (heap s b) \<in> \<int>" and p: "0 \<le> pendingBytesCount (heap s b)"
    and r: "pendingBytesReadIndex (heap s b) = 0" "\<not> resolver_backpressure (heap s b)"
    using assms by (simp_all add: live_def Let_def)
  from i obtain c where c: "pendingBytesCount (heap s b) = of_int c" by (rule Ints_cases)
  with p have "0 \<le> c" by simp
  then show ?thesis by (rule that [OF c _ r])
qed

lemma live_buffer:
  assumes "live s b" and "pendingBytesBuffer (heap s b) = Some buf"
  obtains c where "pendingBytesCount (heap s b) = of_int c" and "0 \<le> c"
    and "c \<le> int (length buf)"
    and "pendingBytesReadIndex (heap s b) = 0"
    and "int (length buf) = pendingBytesBufferExpandedSize (heap s b)"
    and "pendingBytesBufferExpandedSize (heap s b) \<le> maxBufferSize (config s)"
    and "\<not> resolver_backpressure (heap s b)" and "\<not> terminated (heap s b)"
proof -
  from assms(1) obtain c where c: "pendingBytesCount (heap s b) = of_int c" "0 \<le> c"
    "pendingBytesReadIndex (heap s b) = 0" "\<not> resolver_backpressure (heap s b)"
    by (rule live_count)
  have w: "int (length buf) = pendingBytesBufferExpandedSize (heap s b)"
    "pendingBytesBufferExpandedSize (heap s b) \<le> maxBufferSize (config s)"
    "\<not> terminated (heap s b)"
    "pendingBytesCount (heap s b) \<le> of_int (pendingBytesBufferExpandedSize (heap s b))"
    using assms by (simp_all add: live_def Let_def)
  have "c \<le> int (length buf)"
    using w(4) unfolding c(1) w(1) by simp
  then show ?thesis by (rule that [OF c(1,2) _ c(3) w(1,2) c(4) w(3)])
qed

lemma process_resume_live:
  assumes "\<not> resolver_backpressure (heap s b)" and "\<not> terminated (heap s b)"
  shows "process_resume bs e b
           (modify b (case kind (heap s b) of Plain \<Rightarrow> emit n | WithBackpressure \<Rightarrow> compact n) s)
         = process_end e b (modify b (\<lambda>t. (case kind t of Plain \<Rightarrow> emit n t
                | WithBackpressure \<Rightarrow> (compact n t)\<lparr>resolver_backpressure := False,
                     enqueued := enqueued t @ [bs], resolved_writes := resolved_writes t\<rparr>)) s)"
proof (cases "kind (heap s b)")
  case Plain
  then show ?thesis
    by (simp add: process_resume_def Let_def emit_def compact_def modify_def)
next
  case WithBackpressure
  then show ?thesis
    using assms
    by (simp add: process_resume_def Let_def compact_def modify_def push_def)
qed

lemma emit_backpressure:
  "\<not> resolver_backpressure t \<Longrightarrow>
   (compact e t)\<lparr>resolver_backpressure := False,
                  enqueued := enqueued t @ [take (nat e) (the (pendingBytesBuffer t))],
                  resolved_writes := resolved_writes t\<rparr> = emit e t"
  by (rule BandwidthThrottle.equality) (simp_all add: emit_def compact_def)

text \<open>On a well-formed buffer both classes emit and compact in the same way.\<close>

lemma process_emits:
  assumes lim: "readLimit (kind (heap s b)) q = map_option of_int limit"
    and buf: "pendingBytesBuffer (heap s b) = Some buf"
    and r0: "pendingBytesReadIndex (heap s b) = 0"
    and ci: "pendingBytesCount (heap s b) = of_int c"
    and cnt: "c \<le> int (length buf)"
    and size: "int (length buf) = pendingBytesBufferExpandedSize (heap s b)"
    and mx: "pendingBytesBufferExpandedSize (heap s b) \<le> maxBufferSize (config s)"
    and res: "\<not> resolver_backpressure (heap s b)"
    and live: "\<not> terminated (heap s b)"
    and pos: "0 < taken limit (of_int c)"
  shows "process q b s
           = process_end (of_int (taken limit (of_int c))) b
               (modify b (emit (taken limit (of_int c))) s)"
proof -
  let ?e = "taken limit (of_int c)"
  have m: "modify b (\<lambda>t. (case kind t of Plain \<Rightarrow> emit ?e t
                | WithBackpressure \<Rightarrow> (compact ?e t)\<lparr>resolver_backpressure := False,
                     enqueued := enqueued t @ [take (nat ?e) buf],
                     resolved_writes := resolved_writes t\<rparr>)) s
           = modify b (emit ?e) s"
    using emit_backpressure [OF res, of ?e] buf
    by (intro modify_cong) (simp split: kind.splits)
  show ?thesis
    unfolding process_def process_begin_live [OF lim buf r0 ci cnt size mx live pos] prod.case
      process_state.case process_resume_live [OF res live] m ..
qed

lemma process_emits_nothing:
  assumes lim: "readLimit (kind (heap s b)) q = map_option of_int limit"
    and r0: "pendingBytesReadIndex (heap s b) = 0"
    and ci: "pendingBytesCount (heap s b) = of_int c"
    and none: "taken limit (of_int c) \<le> 0"
  shows "process q b s = process_end (of_int (taken limit (of_int c))) b s"
  unfolding process_def process_begin_nothing [OF lim r0 ci none] by simp

lemma round_of_int: "\<lfloor>(of_int n :: rat) + 1 / 2\<rfloor> = n"
  by (simp add: floor_unique)

lemma readLimit_bound:
  assumes "k = WithBackpressure \<or> whole q"
  shows "readLimit k q = map_option of_int (bound k q)"
proof (cases q)
  case Infinity
  then show ?thesis by simp
next
  case (Finite m)
  show ?thesis
  proof (cases k)
    case WithBackpressure
    then show ?thesis using Finite by simp
  next
    case Plain
    then have "m \<in> \<int>" using assms Finite by simp
    then obtain n where "m = of_int n" by (rule Ints_cases)
    then show ?thesis using Plain Finite by simp
  qed
qed

lemma destroy_stop_heap:
  "heap (destroy b (handleRequestStop b s)) b
     = (heap s b)\<lparr>pendingBytesBuffer := None, terminated := True\<rparr>"
  by (simp add: destroy_def handleRequestStop_def handleRequestDestroy_def stopClock_def
        modify_def Let_def)

lemma destroy_stop_config: "config (destroy b (handleRequestStop b s)) = config s"
  by (simp add: destroy_def handleRequestStop_def handleRequestDestroy_def stopClock_def
        modify_def Let_def)

lemma process_end_heap:
  "heap (snd (process_end n b s)) b
     = (if pendingBytesReadIndex (heap s b) < pendingBytesCount (heap s b)
           \<or> isDataBeingWritten (heap s b) \<or> \<not> isThrottled (config s)
        then heap s b
        else (heap s b)\<lparr>done_resolved := True, pendingBytesBuffer := None, terminated := True\<rparr>)"
  by (simp add: process_end_def Let_def destroy_stop_heap)

lemma process_end_config: "config (snd (process_end n b s)) = config s"
  by (simp add: process_end_def Let_def destroy_stop_config)

lemma process_end_keeps:
  assumes "live s b"
  shows "live (snd (process_end n b s)) b"
    and "emitted (snd (process_end n b s)) b = emitted s b"
    and "pending (snd (process_end n b s)) b = pending s b"
    and "pendingBytesCount (heap (snd (process_end n b s)) b) = pendingBytesCount (heap s b)"
    and "isDataBeingWritten (heap (snd (process_end n b s)) b) = isDataBeingWritten (heap s b)"
  using assms
  by (auto simp: live_def emitted_def pending_def process_end_heap process_end_config Let_def
        subarray_def relativeIndex_def split: option.splits)

lemma emit_keeps:
  assumes l: "live s b" and buf: "pendingBytesBuffer (heap s b) = Some buf"
    and pos: "0 < e" and le: "of_int e \<le> pendingBytesCount (heap s b)"
  shows "live (modify b (emit e) s) b"
    and "emitted (modify b (emit e) s) b @ pending (modify b (emit e) s) b
           = emitted s b @ pending s b"
    and "emitted (modify b (emit e) s) b = emitted s b @ take (nat e) buf"
    and "pendingBytesCount (heap (modify b (emit e) s) b) = pendingBytesCount (heap s b) - of_int e"
    and "isDataBeingWritten (heap (modify b (emit e) s) b) = isDataBeingWritten (heap s b)"
    and "pendingBytesBuffer (heap (modify b (emit e) s) b) \<noteq> None"
    and "done_resolved (heap (modify b (emit e) s) b) = done_resolved (heap s b)"
    and "pending (modify b (emit e) s) b = drop (nat e) (pending s b)"
proof -
  let ?t = "heap s b"
  from l buf obtain c where c: "pendingBytesCount ?t = of_int c" and w: "0 \<le> c"
    "c \<le> int (length buf)" "pendingBytesReadIndex ?t = 0"
    "int (length buf) = pendingBytesBufferExpandedSize ?t"
    "pendingBytesBufferExpandedSize ?t \<le> maxBufferSize (config s)"
    "\<not> resolver_backpressure ?t" "\<not> terminated ?t"
    by (rule live_buffer)
  have le': "e \<le> c" using le unfolding c by simp
  let ?rest = "take (nat (c - e)) (drop (nat e) buf)"
  let ?new = "?rest @ replicate (nat (pendingBytesBufferExpandedSize ?t) - nat (c - e)) 0"
  have h: "emit e ?t
             = ?t\<lparr>enqueued := enqueued ?t @ [take (nat e) buf], pendingBytesBuffer := Some ?new,
                   pendingBytesReadIndex := 0, pendingBytesCount := of_int (c - e)\<rparr>"
    by (simp add: emit_def compact_def buf c)
  have lr: "length ?rest = nat (c - e)"
    using w pos le' by simp
  have ln: "int (length ?new) = pendingBytesBufferExpandedSize ?t"
    using w pos le' lr by simp
  have p0: "pending s b = take (nat c) buf"
    using w by (simp add: pending_def buf c subarray_front)
  have ce: "0 \<le> c - e" "c - e \<le> int (length ?new)"
    unfolding ln using le' w pos by linarith+
  have p1: "pending (modify b (emit e) s) b = ?rest"
    using subarray_front [OF ce] lr by (simp add: pending_def h)
  have split: "take (nat e) buf @ ?rest = take (nat c) buf"
  proof -
    have "nat c = nat e + nat (c - e)" using pos le' by simp
    then show ?thesis by (simp add: take_add)
  qed
  have "(of_int (c - e) :: rat) \<le> of_int (pendingBytesBufferExpandedSize ?t)"
    using ce(2) unfolding ln by (simp only: of_int_le_iff)
  moreover have "(0 :: rat) \<le> of_int (c - e)" using ce(1) by (simp only: of_int_0_le_iff)
  ultimately show "live (modify b (emit e) s) b"
    using w ln by (simp add: live_def Let_def h)
  show "emitted (modify b (emit e) s) b @ pending (modify b (emit e) s) b
           = emitted s b @ pending s b"
    using p0 p1 split by (simp add: emitted_def h)
  show "emitted (modify b (emit e) s) b = emitted s b @ take (nat e) buf"
    by (simp add: emitted_def h)
  show "pendingBytesCount (heap (modify b (emit e) s) b) = pendingBytesCount (heap s b) - of_int e"
    by (simp add: h c)
  show "isDataBeingWritten (heap (modify b (emit e) s) b) = isDataBeingWritten (heap s b)"
    by (simp add: h)
  show "pendingBytesBuffer (heap (modify b (emit e) s) b) \<noteq> None"
    by (simp add: h)
  show "done_resolved (heap (modify b (emit e) s) b) = done_resolved (heap s b)"
    by (simp add: h)
  have "drop (nat e) (take (nat c) buf) = ?rest"
    using pos le' by (simp add: drop_take nat_diff_distrib)
  then show "pending (modify b (emit e) s) b = drop (nat e) (pending s b)"
    unfolding p0 p1 by simp
qed

lemma taken_le: "taken limit (of_int c) \<le> c"
  by (simp add: taken_def split: option.splits)

lemma process_conserves:
  assumes l: "live s b" and lim: "readLimit (kind (heap s b)) q = map_option of_int limit"
  shows "live (snd (process q b s)) b
       \<and> emitted (snd (process q b s)) b @ pending (snd (process q b s)) b
           = emitted s b @ pending s b
       \<and> config (snd (process q b s)) = config s
       \<and> isDataBeingWritten (heap (snd (process q b s)) b) = isDataBeingWritten (heap s b)
       \<and> (limit = None \<longrightarrow> pendingBytesCount (heap (snd (process q b s)) b) = 0)"
proof -
  from l obtain c where c: "pendingBytesCount (heap s b) = of_int c" and c0: "0 \<le> c"
    and r0: "pendingBytesReadIndex (heap s b) = 0" and res: "\<not> resolver_backpressure (heap s b)"
    by (rule live_count)
  let ?e = "taken limit (of_int c)"
  show ?thesis
  proof (cases "0 < ?e")
    case True
    then have "0 < c" using taken_le [of limit c] by linarith
    then have "pendingBytesCount (heap s b) \<noteq> 0" unfolding c by simp
    then obtain buf where buf: "pendingBytesBuffer (heap s b) = Some buf"
      using l by (cases "pendingBytesBuffer (heap s b)") (simp_all add: live_def Let_def)
    from l buf obtain c' where c': "pendingBytesCount (heap s b) = of_int c'" and w: 
      "c' \<le> int (length buf)"
      "int (length buf) = pendingBytesBufferExpandedSize (heap s b)"
      "pendingBytesBufferExpandedSize (heap s b) \<le> maxBufferSize (config s)"
      "\<not> terminated (heap s b)"
      by (rule live_buffer)
    have "c' = c" using c c' by simp
    note w = w [unfolded this]
    let ?s1 = "modify b (emit ?e) s"
    have p: "process q b s = process_end (of_int ?e) b ?s1"
      using process_emits [OF lim buf r0 c w(1,2,3) res w(4) True] .
    have le: "(of_int ?e :: rat) \<le> pendingBytesCount (heap s b)"
      unfolding c using taken_le [of limit c] by (simp only: of_int_le_iff)
    note k1 = emit_keeps [OF l buf True le]
    note k2 = process_end_keeps [OF k1(1), of "of_int ?e"]
    have "emitted (snd (process_end (of_int ?e) b ?s1)) b @ pending (snd (process_end (of_int ?e) b ?s1)) b
            = emitted s b @ pending s b"
      using k1(2) k2(2,3) by simp
    moreover have "config (snd (process_end (of_int ?e) b ?s1)) = config s"
      by (simp add: process_end_config)
    moreover have "isDataBeingWritten (heap (snd (process_end (of_int ?e) b ?s1)) b)
                     = isDataBeingWritten (heap s b)"
      using k1(5) k2(5) by simp
    moreover have "limit = None \<longrightarrow> pendingBytesCount (heap (snd (process_end (of_int ?e) b ?s1)) b) = 0"
    proof
      assume "limit = None"
      then have "?e = c" by (simp add: taken_def)
      then show "pendingBytesCount (heap (snd (process_end (of_int ?e) b ?s1)) b) = 0"
        using k1(4) k2(4) c by simp
    qed
    ultimately show ?thesis
      unfolding p using k2(1) by blast
  next
    case False
    then have none: "?e \<le> 0" by simp
    have p: "process q b s = process_end (of_int ?e) b s"
      using process_emits_nothing [OF lim r0 c none] .
    note k = process_end_keeps [OF l, of "of_int ?e"]
    have "limit = None \<longrightarrow> pendingBytesCount (heap (snd (process_end (of_int ?e) b s)) b) = 0"
    proof
      assume "limit = None"
      then have "c = 0" using none c0 by (simp add: taken_def)
      then show "pendingBytesCount (heap (snd (process_end (of_int ?e) b s)) b) = 0"
        using k(4) c by simp
    qed
    moreover have "emitted (snd (process_end (of_int ?e) b s)) b @ pending (snd (process_end (of_int ?e) b s)) b
            = emitted s b @ pending s b"
      using k(2,3) by simp
    moreover have "config (snd (process_end (of_int ?e) b s)) = config s"
      by (simp add: process_end_config)
    ultimately show ?thesis
      unfolding p using k(1,5) by blast
  qed
qed

lemma ceil_quotient_covers:
  assumes "0 < d"
  shows "n \<le> of_int (d * ceil_quotient n d)"
proof -
  have d: "(0 :: rat) < of_int d" using assms by simp
  have "n \<le> of_int \<lceil>n / of_int d\<rceil> * of_int d"
    by (rule iffD1 [OF pos_divide_le_eq [OF d] le_of_int_ceiling])
  then show ?thesis by (simp add: ceil_quotient_def mult.commute)
qed

lemma signal_start_heap:
  "heap (signal_start b s) b = (heap s b)\<lparr>isDataBeingWritten := True\<rparr>"
proof (cases "isDataBeingWritten (heap s b)")
  case True
  have "(heap s b)\<lparr>isDataBeingWritten := True\<rparr> = heap s b"
    using True by (intro BandwidthThrottle.equality) simp_all
  then show ?thesis using True by (simp add: signal_start_def)
next
  case False
  then show ?thesis
    by (simp add: signal_start_def handleRequestStart_def Let_def)
qed

lemma signal_start_config: "config (signal_start b s) = config s"
  by (simp add: signal_start_def handleRequestStart_def Let_def)

lemma expand_heap:
  "heap (expand n b s) b
     = (heap s b)\<lparr>pendingBytesBufferExpandedFactor := ceil_quotient n (bytesPerSecond (config s)),
         pendingBytesBufferExpandedSize :=
           (if bytesPerSecond (config s) * ceil_quotient n (bytesPerSecond (config s))
                 > maxBufferSize (config s)
            then maxBufferSize (config s)
            else bytesPerSecond (config s) * ceil_quotient n (bytesPerSecond (config s)))\<rparr>"
  by (simp add: expand_def Let_def)

lemma expand_config: "config (expand n b s) = config s"
  by (simp add: expand_def Let_def)

lemma set_chunk_fits:
  assumes "pendingBytesBuffer (heap s b) = Some buf"
    and "pendingBytesCount (heap s b) = of_int c"
    and "0 \<le> c"
    and "c + int (length chunk) \<le> int (length buf)"
  shows "set_chunk optional chunk b s = (None, modify b (store chunk) s)"
  using assms
  by (simp add: set_chunk_def set_bytes_def store_def Let_def modify_def)

lemma store_keeps:
  assumes l: "live s b" and buf: "pendingBytesBuffer (heap s b) = Some buf"
    and fits: "pendingBytesCount (heap s b) + of_nat (length chunk) \<le> of_nat (length buf)"
  shows "live (modify b (store chunk) s) b"
    and "emitted (modify b (store chunk) s) b = emitted s b"
    and "pending (modify b (store chunk) s) b = pending s b @ chunk"
    and "isDataBeingWritten (heap (modify b (store chunk) s) b) = isDataBeingWritten (heap s b)"
    and "kind (heap (modify b (store chunk) s) b) = kind (heap s b)"
    and "done_resolved (heap (modify b (store chunk) s) b) = done_resolved (heap s b)"
proof -
  let ?t = "heap s b"
  from l buf obtain c where c: "pendingBytesCount ?t = of_int c" and w: "0 \<le> c"
    "c \<le> int (length buf)" "pendingBytesReadIndex ?t = 0"
    "int (length buf) = pendingBytesBufferExpandedSize ?t"
    "pendingBytesBufferExpandedSize ?t \<le> maxBufferSize (config s)"
    "\<not> resolver_backpressure ?t" "\<not> terminated ?t"
    by (rule live_buffer)
  have "(of_int (c + int (length chunk)) :: rat) \<le> of_int (int (length buf))"
    using fits unfolding c by simp
  then have fits': "c + int (length chunk) \<le> int (length buf)"
    by (simp only: of_int_le_iff)
  let ?new = "take (nat c) buf @ chunk @ drop (nat c + length chunk) buf"
  have h: "store chunk ?t = ?t\<lparr>pendingBytesBuffer := Some ?new,
                                 pendingBytesCount := of_int (c + int (length chunk))\<rparr>"
    by (simp add: store_def buf c)
  have ln: "int (length ?new) = int (length buf)"
    using w fits' by simp
  have tk: "take (nat (c + int (length chunk))) ?new = take (nat c) buf @ chunk"
    using w fits' by (simp add: nat_add_distrib)
  have b0: "0 \<le> c + int (length chunk)" "c + int (length chunk) \<le> int (length ?new)"
    using w fits' ln by simp_all
  have "(of_int (c + int (length chunk)) :: rat) \<le> of_int (pendingBytesBufferExpandedSize ?t)"
    using fits' unfolding w(4) by (simp only: of_int_le_iff)
  moreover have "(0 :: rat) \<le> of_int (c + int (length chunk))"
    using b0(1) by (simp only: of_int_0_le_iff)
  ultimately show "live (modify b (store chunk) s) b"
    using w ln by (simp add: live_def Let_def h)
  show "emitted (modify b (store chunk) s) b = emitted s b"
    by (simp add: emitted_def h)
  have "pending s b = take (nat c) buf"
    using w by (simp add: pending_def buf c subarray_front)
  then show "pending (modify b (store chunk) s) b = pending s b @ chunk"
    using subarray_front [OF b0] tk w by (simp add: pending_def h)
  show "isDataBeingWritten (heap (modify b (store chunk) s) b) = isDataBeingWritten (heap s b)"
    by (simp add: h)
  show "kind (heap (modify b (store chunk) s) b) = kind (heap s b)"
    by (simp add: h)
  show "done_resolved (heap (modify b (store chunk) s) b) = done_resolved (heap s b)"
    by (simp add: h)
qed

lemma live_cong:
  "pendingBytesBuffer (heap s' b) = pendingBytesBuffer (heap s b) \<Longrightarrow>
   pendingBytesCount (heap s' b) = pendingBytesCount (heap s b) \<Longrightarrow>
   pendingBytesReadIndex (heap s' b) = pendingBytesReadIndex (heap s b) \<Longrightarrow>
   pendingBytesBufferExpandedSize (heap s' b) = pendingBytesBufferExpandedSize (heap s b) \<Longrightarrow>
   resolver_backpressure (heap s' b) = resolver_backpressure (heap s b) \<Longrightarrow>
   terminated (heap s' b) = terminated (heap s b) \<Longrightarrow>
   config s' = config s \<Longrightarrow> live s' b = live s b"
  by (simp add: live_def Let_def split: option.splits)

lemma signal_start_keeps:
  shows "live (signal_start b s) b = live s b"
    and "emitted (signal_start b s) b = emitted s b"
    and "pending (signal_start b s) b = pending s b"
  by (simp_all add: live_def emitted_def pending_def Let_def signal_start_heap signal_start_config
        split: option.splits)

lemma transform_accepts:
  assumes l: "live s b" and buf: "pendingBytesBuffer (heap s b) = Some buf"
    and nov: "\<not> overflows chunk b s" and vc: "valid_config (config s)"
  shows "transform chunk b s = (Returned (), process_if_unthrottled b (stored chunk b s))"
    and "live (stored chunk b s) b"
    and "emitted (stored chunk b s) b = emitted s b"
    and "pending (stored chunk b s) b = pending s b @ chunk"
    and "config (stored chunk b s) = config s"
    and "isDataBeingWritten (heap (stored chunk b s) b)"
    and "kind (heap (stored chunk b s) b) = kind (heap s b)"
    and "pendingBytesBuffer (heap (stored chunk b s) b) \<noteq> None"
    and "done_resolved (heap (stored chunk b s) b) = done_resolved (heap s b)"
proof -
  let ?t = "heap s b"
  let ?len = "int (length chunk)"
  let ?s1 = "signal_start b s"
  let ?d = "bytesPerSecond (config s)" and ?mx = "maxBufferSize (config s)"
  from l buf obtain c where c: "pendingBytesCount ?t = of_int c" and w: "0 \<le> c"
    "c \<le> int (length buf)" "pendingBytesReadIndex ?t = 0"
    "int (length buf) = pendingBytesBufferExpandedSize ?t"
    "pendingBytesBufferExpandedSize ?t \<le> ?mx"
    "\<not> resolver_backpressure ?t" "\<not> terminated ?t"
    by (rule live_buffer)
  have need: "of_nat (length chunk) + pendingBytesCount ?t = (of_int (?len + c) :: rat)"
    by (simp add: c)
  have cond: "(of_nat (length chunk) + pendingBytesCount ?t
                 > (of_int (pendingBytesBufferExpandedSize ?t) :: rat))
              = (?len + c > pendingBytesBufferExpandedSize ?t)"
    unfolding need by (simp only: of_int_less_iff)
  have l1: "live ?s1 b" using l by (simp add: signal_start_keeps)
  have b1: "pendingBytesBuffer (heap ?s1 b) = Some buf"
    by (simp add: signal_start_heap buf)
  have c1: "pendingBytesCount (heap ?s1 b) = of_int c" by (simp add: signal_start_heap c)
  have all: "transform chunk b s = (Returned (), process_if_unthrottled b (stored chunk b s))
       \<and> live (stored chunk b s) b
       \<and> emitted (stored chunk b s) b = emitted s b
       \<and> pending (stored chunk b s) b = pending s b @ chunk
       \<and> config (stored chunk b s) = config s
       \<and> isDataBeingWritten (heap (stored chunk b s) b)
       \<and> kind (heap (stored chunk b s) b) = kind (heap s b)
       \<and> pendingBytesBuffer (heap (stored chunk b s) b) \<noteq> None
       \<and> done_resolved (heap (stored chunk b s) b) = done_resolved (heap s b)"
  proof (cases "?len + c > pendingBytesBufferExpandedSize ?t")
    case False
    have st: "stored chunk b s = modify b (store chunk) ?s1"
      using False cond by (simp add: stored_def Let_def)
    have fits: "c + ?len \<le> int (length buf)"
      using False w by linarith
    then have "(of_int (c + ?len) :: rat) \<le> of_int (int (length buf))"
      by (simp only: of_int_le_iff)
    then have fits': "pendingBytesCount (heap ?s1 b) + of_nat (length chunk) \<le> of_nat (length buf)"
      unfolding c1 by simp
    have sc: "set_chunk True chunk b ?s1 = (None, modify b (store chunk) ?s1)"
      by (rule set_chunk_fits [OF b1 c1 w(1) fits])
    note k = store_keeps [OF l1 b1 fits']
    have n1: "\<not> (of_nat (length chunk) + pendingBytesCount (heap ?s1 b)
                   > (of_int (pendingBytesBufferExpandedSize (heap ?s1 b)) :: rat))"
      using False cond by (simp add: signal_start_heap)
    have g1: "transform chunk b s = (Returned (), process_if_unthrottled b (stored chunk b s))"
      unfolding transform_def Let_def st if_not_P [OF n1] sc by simp
    have g2: "live (stored chunk b s) b" unfolding st by (rule k(1))
    have g3: "emitted (stored chunk b s) b = emitted s b"
      unfolding st using k(2) by (simp add: signal_start_keeps)
    have g4: "pending (stored chunk b s) b = pending s b @ chunk"
      unfolding st using k(3) by (simp add: signal_start_keeps)
    have g5: "config (stored chunk b s) = config s"
      unfolding st by (simp add: signal_start_config)
    have g6: "isDataBeingWritten (heap (stored chunk b s) b)"
      unfolding st using k(4) by (simp add: signal_start_heap)
    have g7: "kind (heap (stored chunk b s) b) = kind (heap s b)"
      unfolding st using k(5) by (simp add: signal_start_heap)
    have g8: "pendingBytesBuffer (heap (stored chunk b s) b) \<noteq> None"
      unfolding st by (simp add: store_def)
    have g9: "done_resolved (heap (stored chunk b s) b) = done_resolved (heap s b)"
      unfolding st using k(6) by (simp add: signal_start_heap)
    show ?thesis
      using g1 g2 g3 g4 g5 g6 g7 g8 g9 by blast
  next
    case True
    let ?need = "of_nat (length chunk) + pendingBytesCount ?t"
    let ?f = "ceil_quotient ?need ?d"
    define size' where "size' = (if ?d * ?f > ?mx then ?mx else ?d * ?f)"
    let ?s2 = "expand ?need b ?s1"
    let ?s3 = "modify b (compact 0) ?s2"
    have st: "stored chunk b s = modify b (store chunk) ?s3"
      using True cond by (simp add: stored_def Let_def)
    have "\<not> (of_int (?len + c) :: rat) > of_int ?mx"
      using nov True cond w by (simp add: overflows_def Let_def c)
    then have fit_mx: "?len + c \<le> ?mx"
      by (simp only: of_int_less_iff not_less)
    have dpos: "0 < ?d" using vc by (simp add: valid_config_def)
    have "(of_int (?len + c) :: rat) \<le> of_int (?d * ?f)"
      using ceil_quotient_covers [OF dpos, of ?need] unfolding need .
    then have "?len + c \<le> ?d * ?f" by (simp only: of_int_le_iff)
    then have size_ge: "?len + c \<le> size'"
      using fit_mx by (simp add: size'_def)
    have size_le: "size' \<le> ?mx" by (simp add: size'_def)
    have y1: "of_nat (length chunk) + pendingBytesCount (heap ?s1 b)
                 > (of_int (pendingBytesBufferExpandedSize (heap ?s1 b)) :: rat)"
      using True cond by (simp add: signal_start_heap)
    have y2: "of_nat (length chunk)
                + (pendingBytesCount (heap ?s1 b) - pendingBytesReadIndex (heap ?s1 b))
              \<le> (of_int (maxBufferSize (config ?s1)) :: rat)"
      using nov True cond by (simp add: overflows_def Let_def signal_start_heap signal_start_config w)
    have ex: "expands (kind (heap ?s1 b)) (config ?s1) (heap ?s1 b) (of_nat (length chunk))
                (pendingBytesCount (heap ?s1 b) - pendingBytesReadIndex (heap ?s1 b))"
    proof (cases "kind ?t")
      case Plain
      have "pendingBytesBufferExpandedSize ?t < ?mx" using True fit_mx by linarith
      then show ?thesis
        using Plain by (simp add: expands_def signal_start_heap signal_start_config)
    next
      case WithBackpressure
      then show ?thesis
        using y1 by (simp add: expands_def signal_start_heap w add.commute)
    qed
    have n1: "of_nat (length chunk)
                + (pendingBytesCount (heap ?s1 b) - pendingBytesReadIndex (heap ?s1 b)) = ?need"
      by (simp add: signal_start_heap w)
    have h2: "pendingBytesBuffer (heap ?s2 b) = Some buf"
      "pendingBytesReadIndex (heap ?s2 b) = of_int 0"
      "pendingBytesCount (heap ?s2 b) = of_int c"
      "pendingBytesBufferExpandedSize (heap ?s2 b) = size'"
      "config ?s2 = config s"
      "resolver_backpressure (heap ?s2 b) = resolver_backpressure ?t"
      "enqueued (heap ?s2 b) = enqueued ?t"
      "isDataBeingWritten (heap ?s2 b)"
      "kind (heap ?s2 b) = kind ?t"
      "terminated (heap ?s2 b) = terminated ?t"
      "done_resolved (heap ?s2 b) = done_resolved ?t"
      unfolding size'_def
      by (simp_all add: expand_heap expand_config signal_start_heap signal_start_config buf w c)
    have tr: "trim_buffer b ?s2 = (None, ?s3)"
      by (rule trim_buffer_live [OF h2(1,2,3)])
         (use h2(4,5) w fit_mx size_ge in \<open>simp_all\<close>)
    let ?buf3 = "take (nat c) buf @ replicate (nat size' - nat c) 0"
    have h3: "compact 0 (heap ?s2 b) = (heap ?s2 b)\<lparr>pendingBytesBuffer := Some ?buf3,
                 pendingBytesReadIndex := 0, pendingBytesCount := of_int c\<rparr>"
      unfolding compact_def h2 by simp
    have len3: "int (length ?buf3) = size'"
      using w size_ge by (simp add: min_def) linarith
    have "(of_int c :: rat) \<le> of_int size'" "(0 :: rat) \<le> of_int c"
      using w size_ge by simp_all
    then have l3: "live ?s3 b"
      using w size_le len3 h2 by (simp add: live_def Let_def h3)
    have b3: "pendingBytesBuffer (heap ?s3 b) = Some ?buf3" by (simp add: h3)
    have c3: "pendingBytesCount (heap ?s3 b) = of_int c" by (simp add: h3)
    have fits: "c + ?len \<le> int (length ?buf3)"
      unfolding len3 using size_ge by linarith
    then have "(of_int (c + ?len) :: rat) \<le> of_int (int (length ?buf3))"
      by (simp only: of_int_le_iff)
    then have fits': "pendingBytesCount (heap ?s3 b) + of_nat (length chunk) \<le> of_nat (length ?buf3)"
      unfolding c3 by simp
    have sc: "set_chunk False chunk b ?s3 = (None, modify b (store chunk) ?s3)"
      by (rule set_chunk_fits [OF b3 c3 w(1) fits])
    note k = store_keeps [OF l3 b3 fits']
    have c_le: "c \<le> int (length ?buf3)" unfolding len3 using size_ge by linarith
    have r3: "pendingBytesReadIndex (heap ?s3 b) = 0" by (simp add: h3)
    have ps: "pending s b = take (nat c) buf"
      using w by (simp add: pending_def buf c subarray_front)
    have "pending ?s3 b = subarray ?buf3 0 (of_int c)"
      unfolding pending_def b3 c3 r3 option.case ..
    also have "\<dots> = take (nat c) ?buf3" by (rule subarray_front [OF w(1) c_le])
    also have "\<dots> = take (nat c) buf" using w by simp
    finally have p3: "pending ?s3 b = pending s b" unfolding ps .
    have e3: "emitted ?s3 b = emitted s b"
      by (simp add: emitted_def h3 h2)
    have g1: "transform chunk b s = (Returned (), process_if_unthrottled b (stored chunk b s))"
      unfolding transform_def Let_def st if_P [OF y1] if_P [OF y2] if_P [OF ex] n1 tr prod.case
        option.case sc
      using y2 by (simp add: signal_start_heap signal_start_config w)
    have g2: "live (stored chunk b s) b" unfolding st by (rule k(1))
    have g3: "emitted (stored chunk b s) b = emitted s b"
      unfolding st using k(2) e3 by simp
    have g4: "pending (stored chunk b s) b = pending s b @ chunk"
      unfolding st using k(3) p3 by simp
    have g5: "config (stored chunk b s) = config s"
      unfolding st by (simp add: h2)
    have g6: "isDataBeingWritten (heap (stored chunk b s) b)"
      unfolding st using k(4) by (simp add: h3 h2)
    have g7: "kind (heap (stored chunk b s) b) = kind (heap s b)"
      unfolding st using k(5) by (simp add: h3 h2)
    have g8: "pendingBytesBuffer (heap (stored chunk b s) b) \<noteq> None"
      unfolding st by (simp add: store_def)
    have g9: "done_resolved (heap (stored chunk b s) b) = done_resolved (heap s b)"
      unfolding st using k(6) by (simp add: h3 h2)
    show ?thesis
      using g1 g2 g3 g4 g5 g6 g7 g8 g9 by blast
  qed
  from all show "transform chunk b s = (Returned (), process_if_unthrottled b (stored chunk b s))"
    and "live (stored chunk b s) b"
    and "emitted (stored chunk b s) b = emitted s b"
    and "pending (stored chunk b s) b = pending s b @ chunk"
    and "config (stored chunk b s) = config s"
    and "isDataBeingWritten (heap (stored chunk b s) b)"
    and "kind (heap (stored chunk b s) b) = kind (heap s b)"
    and "pendingBytesBuffer (heap (stored chunk b s) b) \<noteq> None"
    and "done_resolved (heap (stored chunk b s) b) = done_resolved (heap s b)"
    by blast+
qed

lemma process_steady:
  assumes "steady s b" and ok: "acceptable b (Process q) s"
  shows "steady (snd (process q b s)) b"
    and "emitted (snd (process q b s)) b @ pending (snd (process q b s)) b
           = emitted s b @ pending s b"
proof -
  have l: "live s b" using assms by (simp add: steady_def)
  have lim: "readLimit (kind (heap s b)) q = map_option of_int (bound (kind (heap s b)) q)"
    using ok by (intro readLimit_bound) simp
  note k = process_conserves [OF l lim]
  have le: "pendingBytesCount (heap (snd (process q b s)) b) = 0 \<or> isThrottled (config s)"
  proof (cases "isThrottled (config s)")
    case False
    then have z: "pendingBytesCount (heap s b) = of_int 0"
      using assms by (simp add: steady_def drained_def)
    have r0: "pendingBytesReadIndex (heap s b) = 0" using l by (simp add: live_def Let_def)
    have n: "taken (bound (kind (heap s b)) q) (of_int 0) \<le> 0"
      by (simp add: taken_def split: option.splits)
    have "process q b s = process_end (of_int (taken (bound (kind (heap s b)) q) (of_int 0))) b s"
      by (rule process_emits_nothing [OF lim r0 z n])
    then show ?thesis
      using process_end_keeps(4) [OF l] z by simp
  qed simp
  show "steady (snd (process q b s)) b"
    using assms k le by (auto simp: steady_def drained_def)
  show "emitted (snd (process q b s)) b @ pending (snd (process q b s)) b
           = emitted s b @ pending s b"
    using k by blast
qed

lemma process_if_unthrottled_steady:
  assumes l: "live s b" and vc: "valid_config (config s)"
  shows "steady (process_if_unthrottled b s) b"
    and "emitted (process_if_unthrottled b s) b @ pending (process_if_unthrottled b s) b
           = emitted s b @ pending s b"
    and "isDataBeingWritten (heap (process_if_unthrottled b s) b) = isDataBeingWritten (heap s b)"
    and "config (process_if_unthrottled b s) = config s"
proof -
  have "readLimit (kind (heap s b)) Infinity = map_option of_int None" by simp
  note k = process_conserves [OF l this]
  show "steady (process_if_unthrottled b s) b"
    using l vc k by (auto simp: process_if_unthrottled_def steady_def drained_def)
  show "emitted (process_if_unthrottled b s) b @ pending (process_if_unthrottled b s) b
           = emitted s b @ pending s b"
    using k by (simp add: process_if_unthrottled_def)
  show "isDataBeingWritten (heap (process_if_unthrottled b s) b) = isDataBeingWritten (heap s b)"
    using k by (simp add: process_if_unthrottled_def)
  show "config (process_if_unthrottled b s) = config s"
    using k by (simp add: process_if_unthrottled_def)
qed

lemma transform_steady:
  assumes st: "steady s b" and ok: "acceptable b (Write chunk) s"
  shows "steady (snd (transform chunk b s)) b"
    and "emitted (snd (transform chunk b s)) b @ pending (snd (transform chunk b s)) b
           = emitted s b @ pending s b @ chunk"
proof -
  have l: "live s b" and vc: "valid_config (config s)" using st by (simp_all add: steady_def)
  obtain buf where buf: "pendingBytesBuffer (heap s b) = Some buf"
    using ok by auto
  have nov: "\<not> overflows chunk b s" using ok by simp
  note a = transform_accepts [OF l buf nov vc]
  have vc': "valid_config (config (stored chunk b s))" using vc a(5) by simp
  note p = process_if_unthrottled_steady [OF a(2) vc']
  show "steady (snd (transform chunk b s)) b"
    unfolding a(1) using p(1) by simp
  show "emitted (snd (transform chunk b s)) b @ pending (snd (transform chunk b s)) b
           = emitted s b @ pending s b @ chunk"
    unfolding a(1) using p(2) a(3,4) by simp
qed

lemma flush_steady:
  assumes st: "steady s b"
  shows "steady (snd (flush b s)) b"
    and "emitted (snd (flush b s)) b = emitted s b"
    and "pending (snd (flush b s)) b = pending s b"
    and "snd (flush b s) = modify b (\<lambda>t. t\<lparr>isDataBeingWritten := False\<rparr>) s"
proof -
  have d: "pendingBytesCount (heap s b) \<noteq> 0 \<longrightarrow> isThrottled (config s)"
    using st by (auto simp: steady_def drained_def)
  then show f: "snd (flush b s) = modify b (\<lambda>t. t\<lparr>isDataBeingWritten := False\<rparr>) s"
    by (auto simp: flush_def Let_def)
  show "steady (snd (flush b s)) b"
    using st unfolding f by (simp add: steady_def live_def drained_def Let_def split: option.splits)
  show "emitted (snd (flush b s)) b = emitted s b"
    unfolding f by (simp add: emitted_def)
  show "pending (snd (flush b s)) b = pending s b"
    unfolding f by (simp add: pending_def split: option.splits)
qed

lemma call_steady:
  assumes "steady s b" and "acceptable b c s"
  shows "steady (call_on b c s) b"
    and "emitted (call_on b c s) b @ pending (call_on b c s) b
           = emitted s b @ pending s b @ bytes_of c"
proof -
  have "steady (call_on b c s) b
      \<and> emitted (call_on b c s) b @ pending (call_on b c s) b
          = emitted s b @ pending s b @ bytes_of c"
  proof (cases c)
    case (Write chunk)
    then show ?thesis using transform_steady [OF assms(1), of chunk] assms(2) by simp
  next
    case (Process q)
    then show ?thesis using process_steady [OF assms(1), of q] assms(2) by simp
  next
    case Flush
    then show ?thesis using flush_steady [OF assms(1)] by simp
  qed
  then show "steady (call_on b c s) b"
    and "emitted (call_on b c s) b @ pending (call_on b c s) b
           = emitted s b @ pending s b @ bytes_of c"
    by blast+
qed

lemma calls_steady:
  "steady s b \<Longrightarrow> accepted b cs s \<Longrightarrow>
   steady (calls_on b cs s) b
   \<and> emitted (calls_on b cs s) b @ pending (calls_on b cs s) b
       = emitted s b @ pending s b @ written cs"
proof (induction cs arbitrary: s)
  case Nil
  then show ?case by (simp add: written_def)
next
  case (Cons c cs)
  have a: "acceptable b c s" and r: "accepted b cs (call_on b c s)"
    using Cons.prems(2) by simp_all
  note k = call_steady [OF Cons.prems(1) a]
  show ?case
    using Cons.IH [OF k(1) r] k(2) by (simp add: written_def)
qed

lemma created_steady:
  assumes "valid_config (config g)" and "createBandwidthThrottle backpressure g = Some (b, s)"
  shows "steady s b" and "emitted s b = []" and "pending s b = []"
    and "\<not> done_resolved (heap s b)" and "\<not> isDataBeingWritten (heap s b)"
  using assms
  by (auto simp: createBandwidthThrottle_def new_Uint8Array_def Let_def steady_def live_def
        drained_def valid_config_def emitted_def pending_def subarray_def relativeIndex_def
        split: if_splits)

lemma trim_buffer_compactable:
  assumes "compactable s b"
  shows "fst (trim_buffer b s) = None" and "pending (snd (trim_buffer b s)) b = pending s b"
    and "pendingBytesReadIndex (heap (snd (trim_buffer b s)) b) = 0"
    and "pendingBytesCount (heap (snd (trim_buffer b s)) b)
           = pendingBytesCount (heap s b) - pendingBytesReadIndex (heap s b)"
proof -
  obtain buf where buf: "pendingBytesBuffer (heap s b) = Some buf"
    using assms by (auto simp: compactable_def Let_def split: option.splits)
  have i: "pendingBytesReadIndex (heap s b) \<in> \<int>" "pendingBytesCount (heap s b) \<in> \<int>"
    using assms buf by (simp_all add: compactable_def Let_def)
  from i(1) obtain r where r: "pendingBytesReadIndex (heap s b) = of_int r" by (rule Ints_cases)
  from i(2) obtain c where c: "pendingBytesCount (heap s b) = of_int c" by (rule Ints_cases)
  have "(0 :: rat) \<le> of_int r" "(of_int r :: rat) \<le> of_int c"
    "(of_int c :: rat) \<le> of_int (int (length buf))"
    "(of_int (c - r) :: rat) \<le> of_int (maxBufferSize (config s))"
    "(of_int (c - r) :: rat) \<le> of_int (pendingBytesBufferExpandedSize (heap s b))"
    using assms buf by (simp_all add: compactable_def Let_def r c)
  then have w: "0 \<le> r" "r \<le> c" "c \<le> int (length buf)" "c - r \<le> maxBufferSize (config s)"
    "c - r \<le> pendingBytesBufferExpandedSize (heap s b)"
    by (simp_all only: of_int_le_iff of_int_0_le_iff)
  have t: "trim_buffer b s = (None, modify b (compact r) s)"
    by (rule trim_buffer_live [OF buf r c w])
  let ?tr = "take (nat (c - r)) (drop (nat r) buf)"
  let ?new = "?tr @ replicate (nat (pendingBytesBufferExpandedSize (heap s b)) - nat (c - r)) 0"
  have h: "compact r (heap s b) = (heap s b)\<lparr>pendingBytesBuffer := Some ?new,
             pendingBytesReadIndex := 0, pendingBytesCount := of_int (c - r)\<rparr>"
    by (simp add: compact_def buf c)
  have lt: "length ?tr = nat (c - r)" using w by simp
  have b0: "0 \<le> c - r" "c - r \<le> int (length ?new)" using w lt by simp_all
  have p0: "pending s b = ?tr"
    unfolding pending_def buf option.case r c by (rule subarray_take_drop [OF w(1,2,3)])
  have "pending (modify b (compact r) s) b = subarray ?new 0 (of_int (c - r))"
    by (simp add: pending_def h)
  also have "\<dots> = take (nat (c - r)) ?new" by (rule subarray_front [OF b0])
  also have "\<dots> = ?tr" using lt by simp
  finally have p1: "pending (modify b (compact r) s) b = pending s b" unfolding p0 .
  show "fst (trim_buffer b s) = None" by (simp add: t)
  show "pending (snd (trim_buffer b s)) b = pending s b" using p1 by (simp add: t)
  show "pendingBytesReadIndex (heap (snd (trim_buffer b s)) b) = 0" by (simp add: t h)
  show "pendingBytesCount (heap (snd (trim_buffer b s)) b)
           = pendingBytesCount (heap s b) - pendingBytesReadIndex (heap s b)"
    by (simp add: t h r c)
qed

lemma floor_rat_numeral [simp]:
  "\<lfloor>numeral a / numeral b :: rat\<rfloor> = numeral a div numeral b"
  using floor_divide_of_int_eq [of "numeral a" "numeral b", where ?'a = rat] by simp

lemma ceiling_rat_numeral [simp]:
  "\<lceil>numeral a / numeral b :: rat\<rceil> = - (- numeral a div numeral b)"
  using ceiling_divide_eq_div [of "numeral a" "numeral b", where ?'a = rat] by simp

lemmas trace_defs = fresh_def tiny_config_def written_def overflows_def emitted_def pending_def
  compactable_def valid_config_def




section \<open>The partitioner\<close>

lemma indicator_sum:
  assumes "0 \<le> r" and "r \<le> P"
  shows "(\<Sum>i = 0..<P. if i < r then 1 else (0::int)) = r"
proof -
  have "(\<Sum>i = 0..<P. if i < r then 1 else (0::int)) = (\<Sum>i \<in> {0..<P} \<inter> {i. i < r}. 1)"
    by (subst sum.inter_restrict) simp_all
  also have "{0..<P} \<inter> {i. i < r} = {0..<r}"
    using assms by auto
  finally show ?thesis using assms by simp
qed

lemma partition_sum:
  assumes "0 \<le> N" and "1 \<le> P"
  shows "(\<Sum>i = 0..<P. getPartitionedIntegerPartAtIndex N P i) = N"
proof -
  have r: "0 \<le> N mod P" "N mod P \<le> P"
    using assms by (simp_all add: less_imp_le)
  have "(\<Sum>i = 0..<P. getPartitionedIntegerPartAtIndex N P i)
      = (\<Sum>i = 0..<P. N div P) + (\<Sum>i = 0..<P. if i < N mod P then 1 else 0)"
    by (simp add: getPartitionedIntegerPartAtIndex_def sum.distrib)
  also have "(\<Sum>i = 0..<P. N div P) = P * (N div P)"
    using assms by simp
  also have "(\<Sum>i = 0..<P. if i < N mod P then 1 else (0::int)) = N mod P"
    using r by (rule indicator_sum)
  finally show ?thesis by simp
qed

lemma partition_nonneg: "0 \<le> N \<Longrightarrow> 1 \<le> P \<Longrightarrow> 0 \<le> getPartitionedIntegerPartAtIndex N P i"
  by (simp add: getPartitionedIntegerPartAtIndex_def pos_imp_zdiv_nonneg_iff)

section \<open>The claims\<close>

text \<open>
  Claim C2. For integers \<open>N \<ge> 0\<close> and \<open>P \<ge> 1\<close>, the parts at the indices \<open>0 \<le> i < P\<close> are
  non-negative, sum to \<open>N\<close>, each is \<open>\<lfloor>N/P\<rfloor>\<close> or \<open>\<lfloor>N/P\<rfloor> + 1\<close>, and the indices that receive
  the larger value are exactly the first \<open>N mod P\<close>.
\<close>

theorem partitionedIntegerPart_distribution:
  assumes "0 \<le> N" and "1 \<le> P"
  shows "(\<forall>i\<in>{0..<P}. 0 \<le> getPartitionedIntegerPartAtIndex N P i)
       \<and> (\<Sum>i = 0..<P. getPartitionedIntegerPartAtIndex N P i) = N
       \<and> (\<forall>i\<in>{0..<P}. getPartitionedIntegerPartAtIndex N P i = N div P
                      \<or> getPartitionedIntegerPartAtIndex N P i = N div P + 1)
       \<and> (\<forall>i\<in>{0..<P}. getPartitionedIntegerPartAtIndex N P i = N div P + 1 \<longleftrightarrow> i < N mod P)
       \<and> {i \<in> {0..<P}. getPartitionedIntegerPartAtIndex N P i = N div P + 1} = {0..<N mod P}"
proof -
  have r: "0 \<le> N mod P" "N mod P < P"
    using assms by simp_all
  have a: "\<forall>i\<in>{0..<P}. 0 \<le> getPartitionedIntegerPartAtIndex N P i"
    using assms by (simp add: partition_nonneg)
  have b: "\<forall>i\<in>{0..<P}. getPartitionedIntegerPartAtIndex N P i = N div P
                      \<or> getPartitionedIntegerPartAtIndex N P i = N div P + 1"
    by (simp add: getPartitionedIntegerPartAtIndex_def)
  have c: "\<forall>i\<in>{0..<P}. getPartitionedIntegerPartAtIndex N P i = N div P + 1 \<longleftrightarrow> i < N mod P"
    by (simp add: getPartitionedIntegerPartAtIndex_def)
  have d: "{i \<in> {0..<P}. getPartitionedIntegerPartAtIndex N P i = N div P + 1} = {0..<N mod P}"
    using r by (auto simp: getPartitionedIntegerPartAtIndex_def)
  show ?thesis
    using a b c d partition_sum [OF assms] by blast
qed

theorem partitionedIntegerPart_distribution_witness:
  "(0::int) \<le> 7 \<and> (1::int) \<le> 3
   \<and> (1::int) \<in> {0..<3}
   \<and> (\<Sum>i = 0..<3. getPartitionedIntegerPartAtIndex 7 3 i) = 7
   \<and> getPartitionedIntegerPartAtIndex 7 3 0 = 3
   \<and> getPartitionedIntegerPartAtIndex 7 3 1 = 2
   \<and> getPartitionedIntegerPartAtIndex 7 3 2 = 2"
  using partitionedIntegerPart_distribution [of 7 3]
  by (simp add: getPartitionedIntegerPartAtIndex_def)

text \<open>
  Claim C3, as amended: from a fresh throttle under a configuration with
  \<open>0 < bytesPerSecond \<le> maxBufferSize\<close>, after any sequence of writes, calls of \<open>process\<close> and
  \<open>flush\<close>, in which every write finds the buffer not released and does not overflow
  \<open>maxBufferSize\<close>, and in which the plain class is given no number with a fraction (the
  backpressure class takes any number, which it rounds), the bytes written are the bytes
  emitted followed by the pending bytes. And \<open>trim_buffer\<close> on a buffer whose indices are
  whole and in range keeps exactly the \<open>pendingBytesCount - pendingBytesReadIndex\<close> pending
  bytes, in order, at index 0.
\<close>

theorem accepted_bytes_are_conserved:
  assumes "valid_config (config g)"
    and "createBandwidthThrottle backpressure g = Some (b, s0)"
    and "accepted b cs s0"
  shows "written cs = emitted (calls_on b cs s0) b @ pending (calls_on b cs s0) b
       \<and> (compactable s b' \<longrightarrow>
            fst (trim_buffer b' s) = None
            \<and> pending (snd (trim_buffer b' s)) b' = pending s b'
            \<and> pendingBytesReadIndex (heap (snd (trim_buffer b' s)) b') = 0
            \<and> pendingBytesCount (heap (snd (trim_buffer b' s)) b')
                = pendingBytesCount (heap s b') - pendingBytesReadIndex (heap s b'))"
proof -
  note c = created_steady [OF assms(1,2)]
  have "written cs = emitted (calls_on b cs s0) b @ pending (calls_on b cs s0) b"
    using calls_steady [OF c(1) assms(3)] c(2,3) by simp
  then show ?thesis
    using trim_buffer_compactable [of s b'] by blast
qed

theorem accepted_bytes_are_conserved_witness:
  "valid_config (config (new_BandwidthThrottleGroup tiny_config))
   \<and> createBandwidthThrottle True (new_BandwidthThrottleGroup tiny_config)
       = Some (0, fresh True tiny_config)
   \<and> accepted 0 [Write [1, 2, 3], Process (Finite (5 / 2)), Write [4], Flush, Process Infinity]
        (fresh True tiny_config)
   \<and> written [Write [1, 2, 3], Process (Finite (5 / 2)), Write [4], Flush, Process Infinity]
       = emitted (calls_on 0 [Write [1, 2, 3], Process (Finite (5 / 2)), Write [4], Flush,
                              Process Infinity] (fresh True tiny_config)) 0
         @ pending (calls_on 0 [Write [1, 2, 3], Process (Finite (5 / 2)), Write [4], Flush,
                                Process Infinity] (fresh True tiny_config)) 0
   \<and> emitted (calls_on 0 [Write [1, 2, 3], Process (Finite (5 / 2)), Write [4], Flush,
                          Process Infinity] (fresh True tiny_config)) 0 = [1, 2, 3, 4]
   \<and> compactable half_read 0
   \<and> pending half_read 0 = [2, 3]
   \<and> pending (snd (trim_buffer 0 half_read)) 0 = pending half_read 0"
proof -
  let ?cs = "[Write [1, 2, 3], Process (Finite (5 / 2)), Write [4], Flush, Process Infinity]"
  have v: "valid_config (config (new_BandwidthThrottleGroup tiny_config))"
    by (simp add: trace_defs eval_defs)
  have c: "createBandwidthThrottle True (new_BandwidthThrottleGroup tiny_config)
             = Some (0, fresh True tiny_config)"
    by (simp add: trace_defs eval_defs)
  have a: "accepted 0 ?cs (fresh True tiny_config)"
    by (simp add: trace_defs eval_defs)
  have e: "emitted (calls_on 0 ?cs (fresh True tiny_config)) 0 = [1, 2, 3, 4]"
    by (simp add: trace_defs eval_defs)
  have h: "compactable half_read 0 \<and> pending half_read 0 = [2, 3]"
    by (simp add: half_read_def trace_defs eval_defs)
  show ?thesis
    using v c a e h accepted_bytes_are_conserved [OF v c a, of half_read 0] by blast
qed

text \<open>
  Claim C3 as stated fails at an overflowing write: after a write of three bytes and a second
  write that overflows, five bytes were written, none was emitted, and the buffer with the
  three accepted bytes is released. It also fails on the plain class at a number with a
  fraction: after a write of four bytes, \<open>process(2.5)\<close> emits two bytes and leaves a count of
  \<open>1.5\<close>, and the next \<open>process()\<close> emits one byte and leaves nothing pending, so the fourth
  byte is neither emitted nor pending.
\<close>

theorem overflow_loses_bytes_counterexample:
  "written [Write [1, 2, 3], Write [4, 5]] = [1, 2, 3, 4, 5]
   \<and> emitted (calls_on 0 [Write [1, 2, 3], Write [4, 5]] (fresh False tiny_config)) 0 = []
   \<and> pending (calls_on 0 [Write [1, 2, 3], Write [4, 5]] (fresh False tiny_config)) 0 = []
   \<and> pendingBytesBuffer (heap (calls_on 0 [Write [1, 2, 3], Write [4, 5]] (fresh False tiny_config)) 0) = None
   \<and> written [Write [1, 2, 3], Write [4, 5]]
       \<noteq> emitted (calls_on 0 [Write [1, 2, 3], Write [4, 5]] (fresh False tiny_config)) 0
         @ pending (calls_on 0 [Write [1, 2, 3], Write [4, 5]] (fresh False tiny_config)) 0
   \<and> written [Write [1, 2, 3, 4], Process (Finite (5 / 2)), Process Infinity] = [1, 2, 3, 4]
   \<and> pendingBytesCount (heap (calls_on 0 [Write [1, 2, 3, 4], Process (Finite (5 / 2))]
                                (fresh False tiny_config)) 0) = 3 / 2
   \<and> emitted (calls_on 0 [Write [1, 2, 3, 4], Process (Finite (5 / 2)), Process Infinity]
               (fresh False tiny_config)) 0 = [1, 2, 3]
   \<and> pending (calls_on 0 [Write [1, 2, 3, 4], Process (Finite (5 / 2)), Process Infinity]
               (fresh False tiny_config)) 0 = []"
  by (simp add: trace_defs eval_defs)

text \<open>
  Claim C9 fails on the code. Given the same four bytes and the same call \<open>process(2.5)\<close>, the
  plain throttle adds the number to its read index as it is and emits two bytes, keeping a
  count of \<open>1.5\<close>, while the backpressure throttle rounds the number and emits three, keeping a
  count of 1; after a further \<open>process()\<close> the plain throttle has emitted three of the four
  bytes and the backpressure throttle all four. The two also part after an overflow: the next
  write that needs a larger buffer is rejected with a \<open>TypeError\<close> by the plain throttle, whose
  \<open>trim_buffer\<close> reads the released buffer, and accepted by the backpressure throttle, whose
  \<open>trim_buffer\<close> guards against it.
\<close>

theorem variants_differ_on_fractional_quota:
  "enqueued (heap (calls_on 0 [Write [1, 2, 3, 4], Process (Finite (5 / 2))]
                    (fresh False tiny_config)) 0) = [[1, 2]]
   \<and> enqueued (heap (calls_on 0 [Write [1, 2, 3, 4], Process (Finite (5 / 2))]
                      (fresh True tiny_config)) 0) = [[1, 2, 3]]
   \<and> pendingBytesCount (heap (calls_on 0 [Write [1, 2, 3, 4], Process (Finite (5 / 2))]
                                (fresh False tiny_config)) 0) = 3 / 2
   \<and> pendingBytesCount (heap (calls_on 0 [Write [1, 2, 3, 4], Process (Finite (5 / 2))]
                                (fresh True tiny_config)) 0) = 1
   \<and> emitted (calls_on 0 [Write [1, 2, 3, 4], Process (Finite (5 / 2)), Process Infinity]
               (fresh False tiny_config)) 0 = [1, 2, 3]
   \<and> emitted (calls_on 0 [Write [1, 2, 3, 4], Process (Finite (5 / 2)), Process Infinity]
               (fresh True tiny_config)) 0 = [1, 2, 3, 4]
   \<and> fst (transform [6, 7, 8] 0 (calls_on 0 [Write [1, 2, 3, 4, 5]] (fresh False tiny_config)))
       = Threw TypeError
   \<and> fst (transform [6, 7, 8] 0 (calls_on 0 [Write [1, 2, 3, 4, 5]] (fresh True tiny_config)))
       = Returned ()
   \<and> enqueued (heap (calls_on 0 [Write [1, 2, 3, 4, 5], Write [6, 7, 8], Process (Finite 2)]
                      (fresh False tiny_config)) 0) = []
   \<and> enqueued (heap (calls_on 0 [Write [1, 2, 3, 4, 5], Write [6, 7, 8], Process (Finite 2)]
                      (fresh True tiny_config)) 0) = [[6, 7]]"
  by (simp add: trace_defs eval_defs)

text \<open>
  Claim C4, on the code: a first write of 1500 bytes under \<open>maxBufferSize = 1000\<close> appends
  nothing and releases the buffer, but only \<open>handleRequestDestroy\<close> runs: the throttle stays
  in \<open>inFlightRequests\<close>, the clock keeps ticking and the controller is not terminated.
\<close>

theorem overflow_leaves_throttle_in_flight:
  "inFlightRequests (snd (transform (replicate 1500 0) 0 (one_throttle False overflow_config))) = [0]
   \<and> isTicking (snd (transform (replicate 1500 0) 0 (one_throttle False overflow_config)))
   \<and> bandwidthThrottles (snd (transform (replicate 1500 0) 0 (one_throttle False overflow_config))) = []
   \<and> pendingBytesBuffer (heap (snd (transform (replicate 1500 0) 0 (one_throttle False overflow_config))) 0) = None
   \<and> pendingBytesCount (heap (snd (transform (replicate 1500 0) 0 (one_throttle False overflow_config))) 0) = 0
   \<and> enqueued (heap (snd (transform (replicate 1500 0) 0 (one_throttle False overflow_config))) 0) = []
   \<and> \<not> terminated (heap (snd (transform (replicate 1500 0) 0 (one_throttle False overflow_config))) 0)"
  by (simp add: overflow_config_def eval_defs)

text \<open>
  Claim C5. In every reachable state the in-flight list is non-empty exactly when the clock is
  ticking; a start on an empty in-flight list leaves one throttle in flight with the clock
  ticking, and a stop that empties the list leaves the clock stopped.
\<close>

theorem inFlight_iff_clock_running:
  assumes "reachable s"
  shows "(inFlightRequests s \<noteq> [] \<longleftrightarrow> isTicking s)
       \<and> (inFlightRequests s = [] \<longrightarrow>
            inFlightRequests (handleRequestStart b s) = [b] \<and> isTicking (handleRequestStart b s))
       \<and> (inFlightRequests (handleRequestStop b s) = [] \<longrightarrow> \<not> isTicking (handleRequestStop b s))"
proof -
  have i: "clock_inv s" using assms by (rule reachable_clock_inv)
  have "clock_inv (handleRequestStop b s)" using i by (rule clock_inv_handleRequestStop)
  moreover have "inFlightRequests (handleRequestStart b s) = inFlightRequests s @ [b]"
    "isTicking (handleRequestStart b s)"
    by (simp_all add: handleRequestStart_def isTicking_def Let_def)
  ultimately show ?thesis
    using i by (simp add: clock_inv_def isTicking_def)
qed

theorem inFlight_iff_clock_running_witness:
  "reachable (one_throttle False seed_config)
   \<and> inFlightRequests (one_throttle False seed_config) = []
   \<and> \<not> isTicking (one_throttle False seed_config)
   \<and> inFlightRequests (handleRequestStart 0 (one_throttle False seed_config)) = [0]
   \<and> isTicking (handleRequestStart 0 (one_throttle False seed_config))
   \<and> reachable (snd (transform [1, 2, 3] 0 (one_throttle False seed_config)))
   \<and> inFlightRequests (snd (transform [1, 2, 3] 0 (one_throttle False seed_config))) \<noteq> []
   \<and> isTicking (snd (transform [1, 2, 3] 0 (one_throttle False seed_config)))
   \<and> inFlightRequests (handleRequestStop 0 (snd (transform [1, 2, 3] 0 (one_throttle False seed_config)))) = []
   \<and> \<not> isTicking (handleRequestStop 0 (snd (transform [1, 2, 3] 0 (one_throttle False seed_config))))"
proof -
  let ?g = "one_throttle False seed_config"
  let ?w = "snd (transform [1, 2, 3] 0 ?g)"
  have g: "reachable ?g"
    by (rule reachable_one_throttle) (simp add: seed_config_def)
  have e: "inFlightRequests ?g = []"
    by (simp add: eval_defs)
  have w: "reachable ?w"
    by (rule reachable_written)
  have n: "inFlightRequests ?w \<noteq> []"
    by (simp add: eval_defs)
  have x: "inFlightRequests (handleRequestStop 0 ?w) = []"
    by (simp add: eval_defs)
  show ?thesis
    using g e w n x inFlight_iff_clock_running [OF g, of 0] inFlight_iff_clock_running [OF w, of 0]
    by blast
qed

text \<open>
  Claim C6, as amended: on an unthrottled group \<open>process\<close> never finalizes the throttle. It
  leaves \<open>done\<close> as it was, does not terminate the controller, and leaves the in-flight list,
  the list of throttles and the clock unchanged.
\<close>

theorem unthrottled_process_does_not_finalize:
  assumes "\<not> isThrottled (config s)"
  shows "done_resolved (heap (snd (process m b s)) b') = done_resolved (heap s b')
       \<and> terminated (heap (snd (process m b s)) b') = terminated (heap s b')
       \<and> inFlightRequests (snd (process m b s)) = inFlightRequests s
       \<and> bandwidthThrottles (snd (process m b s)) = bandwidthThrottles s
       \<and> clockIntervalId (snd (process m b s)) = clockIntervalId s"
  using lifecycle_process [OF assms, of m b b'] by (simp add: lifecycle_def)

theorem unthrottled_process_does_not_finalize_witness:
  "\<not> isThrottled (config unthrottled_written)
   \<and> done_resolved (heap (snd (process Infinity 0 unthrottled_written)) 0)
       = done_resolved (heap unthrottled_written 0)
   \<and> inFlightRequests (snd (process Infinity 0 unthrottled_written)) = [0]"
proof -
  have h: "\<not> isThrottled (config unthrottled_written)"
    by (simp add: unthrottled_written_def unthrottled_config_def eval_defs)
  have "inFlightRequests unthrottled_written = [0]"
    by (simp add: unthrottled_written_def unthrottled_config_def eval_defs)
  then show ?thesis
    using h unthrottled_process_does_not_finalize [OF h, of Infinity 0 0] by simp
qed

text \<open>
  Claim C6 as stated fails: after a write on an unthrottled group, a call of \<open>process\<close>
  returns with \<open>done\<close> unresolved, the throttle in flight and registered, and the controller
  not terminated.
\<close>

theorem unthrottled_process_counterexample:
  "\<not> isThrottled (config unthrottled_written)
   \<and> fst (process Infinity 0 unthrottled_written) = Returned 0
   \<and> \<not> done_resolved (heap (snd (process Infinity 0 unthrottled_written)) 0)
   \<and> inFlightRequests (snd (process Infinity 0 unthrottled_written)) = [0]
   \<and> bandwidthThrottles (snd (process Infinity 0 unthrottled_written)) = [0]
   \<and> \<not> terminated (heap (snd (process Infinity 0 unthrottled_written)) 0)"
  by (simp add: unthrottled_written_def unthrottled_config_def eval_defs)




text \<open>
  Claim C8, on the code: with two throttles in a group, the first \<open>destroy\<close> of throttle 0
  removes it from the list of throttles, and the second removes throttle 1, which was never
  destroyed and still holds its buffer.
\<close>

theorem second_destroy_removes_another_throttle:
  "bandwidthThrottles (two_throttles seed_config) = [0, 1]
   \<and> bandwidthThrottles (destroy 0 (two_throttles seed_config)) = [1]
   \<and> bandwidthThrottles (destroy 0 (destroy 0 (two_throttles seed_config))) = []
   \<and> \<not> terminated (heap (destroy 0 (destroy 0 (two_throttles seed_config))) 1)
   \<and> pendingBytesBuffer (heap (destroy 0 (destroy 0 (two_throttles seed_config))) 1) \<noteq> None"
  by (simp add: two_throttles_def eval_defs)

text \<open>
  Claim C10. In every reachable state with an empty in-flight list the clock handle is null,
  \<open>tickIndex\<close> and \<open>secondIndex\<close> are 0 and \<open>lastTickTime\<close> is -1, as \<open>stopClock\<close> sets them;
  so the next start finds rotation offset 0 and its first tick computes an elapsed time of 0.
\<close>

theorem stopped_clock_is_reset:
  assumes "reachable s" and "inFlightRequests s = []"
  shows "clockIntervalId s = None \<and> tickIndex s = 0 \<and> secondIndex s = 0 \<and> lastTickTime s = -1
       \<and> period (handleRequestStart b s) = 0
       \<and> elapsedTime now (handleRequestStart b s) = 0
       \<and> clockIntervalId (stopClock s') = None \<and> tickIndex (stopClock s') = 0
       \<and> secondIndex (stopClock s') = 0 \<and> lastTickTime (stopClock s') = -1"
proof -
  have i: "clock_inv s" using assms(1) by (rule reachable_clock_inv)
  then have r: "clockIntervalId s = None" "tickIndex s = 0" "secondIndex s = 0" "lastTickTime s = -1"
    using assms(2) by (simp_all add: clock_inv_def)
  show ?thesis
    using r assms(2)
    by (simp add: period_def elapsedTime_def hasTicked_def handleRequestStart_def stopClock_def Let_def)
qed

theorem stopped_clock_is_reset_witness:
  "reachable period_over \<and> inFlightRequests period_over = []
   \<and> tickIndex (processInFlightRequests 1000 (snd (transform [1, 2, 3] 0 (one_throttle False seed_config)))) = 1
   \<and> lastTickTime (processInFlightRequests 1000 (snd (transform [1, 2, 3] 0 (one_throttle False seed_config)))) = 1000
   \<and> clockIntervalId period_over = None \<and> tickIndex period_over = 0 \<and> secondIndex period_over = 0
   \<and> lastTickTime period_over = -1
   \<and> period (handleRequestStart 0 period_over) = 0
   \<and> elapsedTime 5000 (handleRequestStart 0 period_over) = 0"
proof -
  have e: "inFlightRequests period_over = []"
    by (simp add: period_over_def eval_defs)
  have t: "tickIndex (processInFlightRequests 1000 (snd (transform [1, 2, 3] 0 (one_throttle False seed_config)))) = 1
     \<and> lastTickTime (processInFlightRequests 1000 (snd (transform [1, 2, 3] 0 (one_throttle False seed_config)))) = 1000"
    by (simp add: eval_defs)
  show ?thesis
    using e t reachable_period_over stopped_clock_is_reset [OF reachable_period_over e, of 0 5000]
    by simp
qed

end
